theory Spec2Isabelle
  imports Main "HOL-Library.Sublist"
begin

section \<open>Go slices over an explicit store\<close>

text \<open>
  The package \<^verbatim>\<open>slices\<close> works on Go slices. A slice is a view into a backing array: where
  the view starts, how many elements it shows (\<^verbatim>\<open>len\<close>) and how far it may be extended
  (\<^verbatim>\<open>cap\<close>). Several views may share one array, and \<^verbatim>\<open>Delete\<close>, \<^verbatim>\<open>Compact\<close> and the
  fast path of \<^verbatim>\<open>Insert\<close> write through the view. The store is therefore explicit: a
  heap is the list of the arrays allocated so far, an array is addressed by its position
  in that list, and allocation appends a new array.

  Modelling decisions:
  \<^item> Go's \<^verbatim>\<open>int\<close> is \<^typ>\<open>int\<close> for arguments that the caller chooses (indices, \<^verbatim>\<open>n\<close> of
    \<^verbatim>\<open>Grow\<close>) and \<^typ>\<open>nat\<close> for lengths and for loop counters that start at a constant and
    only count up to a length. The additions on \<^verbatim>\<open>int\<close> in \<^verbatim>\<open>Insert\<close>, \<^verbatim>\<open>len(s)+len(vs)\<close> and
    \<^verbatim>\<open>i+len(vs)\<close>, wrap around at 64 bits (\<open>wrap64\<close>). The addition in \<^verbatim>\<open>Delete\<close>,
    \<^verbatim>\<open>i+copy(...)\<close>, is only evaluated after \<^verbatim>\<open>s[i:]\<close> has succeeded, with a sum that is at
    most \<^verbatim>\<open>len(s)\<close>.
  \<^item> An allocation panics when it asks for more elements than one allocation can hold.
    That number depends on the element type and the platform and is the parameter \<open>lim\<close>
    of the allocating functions. An allocation within the limit succeeds: running out of
    memory below it is a fatal error of the run-time system, which is not modelled.
  \<^item> A run-time panic is a value of type \<open>panic\<close>; every function that can panic returns
    \<open>panic + result\<close>, with \<open>Inl\<close> for the panic.
  \<^item> The nil slice and an empty slice are both views of capacity 0, of any allocated array
    (an empty one, for instance); none of the modelled functions tells them apart.
  \<^item> \<^verbatim>\<open>==\<close> and \<^verbatim>\<open><\<close> on elements are HOL's equality and a linear order. Floating-point
    elements (where NaN is unequal to itself) are outside the model.
  \<^item> The zero value of the element type is the parameter \<open>z\<close> of the allocating functions.
  \<^item> The functions that only read (\<^verbatim>\<open>Compare\<close>, \<^verbatim>\<open>Index\<close>, \<^verbatim>\<open>Contains\<close>) return no heap.
\<close>

datatype panic =
  IndexOutOfRange | SliceBoundsOutOfRange | MakeLenOutOfRange | MakeCapOutOfRange
  | GrowsliceLenOutOfRange

type_synonym 'a heap = "'a list list"

record slice =
  base :: nat
  off :: nat
  len :: nat
  cap :: nat

text \<open>A view is valid in a heap when its array is allocated and holds the whole capacity.\<close>

definition valid :: "'a heap \<Rightarrow> slice \<Rightarrow> bool" where
  "valid h s \<longleftrightarrow>
     base s < length h \<and> off s + cap s \<le> length (h ! base s) \<and> len s \<le> cap s"

text \<open>The elements a view shows, in index order.\<close>

definition contents :: "'a heap \<Rightarrow> slice \<Rightarrow> 'a list" where
  "contents h s = take (len s) (drop (off s) (h ! base s))"

text \<open>Sequencing of computations that may panic: the first panic is the result.\<close>

definition bnd :: "panic + 'a \<Rightarrow> ('a \<Rightarrow> panic + 'b) \<Rightarrow> panic + 'b" where
  "bnd m f = (case m of Inl e \<Rightarrow> Inl e | Inr x \<Rightarrow> f x)"

subsection \<open>Language primitives\<close>

text \<open>The value of a 64-bit signed integer after an addition: the sum, wrapped around.\<close>

definition wrap64 :: "int \<Rightarrow> int" where
  "wrap64 x = (x + 2 ^ 63) mod 2 ^ 64 - 2 ^ 63"

text \<open>
  The slice expression \<^verbatim>\<open>s[lo:hi]\<close> on a slice operand panics unless
  \<^verbatim>\<open>0 <= lo <= hi <= cap(s)\<close>; \<^verbatim>\<open>s[lo:]\<close> has \<^verbatim>\<open>hi = len(s)\<close> and \<^verbatim>\<open>s[:hi]\<close> has
  \<^verbatim>\<open>lo = 0\<close>.
\<close>

definition slice_expr :: "slice \<Rightarrow> int \<Rightarrow> int \<Rightarrow> panic + slice" where
  "slice_expr s lo hi =
     (if 0 \<le> lo \<and> lo \<le> hi \<and> hi \<le> int (cap s)
      then Inr \<lparr>base = base s, off = off s + nat lo, len = nat (hi - lo), cap = cap s - nat lo\<rparr>
      else Inl SliceBoundsOutOfRange)"

definition slice_from :: "slice \<Rightarrow> int \<Rightarrow> panic + slice" where
  "slice_from s lo = slice_expr s lo (int (len s))"

definition slice_to :: "slice \<Rightarrow> int \<Rightarrow> panic + slice" where
  "slice_to s hi = slice_expr s 0 hi"

text \<open>The index expression \<^verbatim>\<open>s[k]\<close>, read and written.\<close>

definition index :: "'a heap \<Rightarrow> slice \<Rightarrow> int \<Rightarrow> panic + 'a" where
  "index h s k =
     (if 0 \<le> k \<and> k < int (len s) then Inr (h ! base s ! (off s + nat k))
      else Inl IndexOutOfRange)"

definition assign :: "'a heap \<Rightarrow> slice \<Rightarrow> int \<Rightarrow> 'a \<Rightarrow> panic + 'a heap" where
  "assign h s k x =
     (if 0 \<le> k \<and> k < int (len s) then Inr (h[base s := (h ! base s)[off s + nat k := x]])
      else Inl IndexOutOfRange)"

text \<open>
  \<open>overwrite a k xs\<close> is the array \<open>a\<close> with the cells from \<open>k\<close> on replaced by \<open>xs\<close>;
  \<open>store\<close> does so in the array of a view, from the start of the view.
\<close>

definition overwrite :: "'a list \<Rightarrow> nat \<Rightarrow> 'a list \<Rightarrow> 'a list" where
  "overwrite a k xs = take k a @ xs @ drop (k + length xs) a"

definition store :: "'a heap \<Rightarrow> slice \<Rightarrow> 'a list \<Rightarrow> 'a heap" where
  "store h d xs = h[base d := overwrite (h ! base d) (off d) xs]"

text \<open>
  The builtin \<^verbatim>\<open>copy(dst, src)\<close> copies \<^verbatim>\<open>min(len(dst), len(src))\<close> elements and returns
  that number. It behaves as a memmove: the source is read as it is before the call, also
  when the two views overlap.
\<close>

definition copy :: "'a heap \<Rightarrow> slice \<Rightarrow> slice \<Rightarrow> nat \<times> 'a heap" where
  "copy h dst src =
     (let n = min (len dst) (len src) in (n, store h dst (take n (contents h src))))"

text \<open>
  The builtin \<^verbatim>\<open>make([]T, n, c)\<close>: a new array of \<open>c\<close> zero values, viewed with length \<open>n\<close>.
  The run-time system panics with \<^verbatim>\<open>makeslice: len out of range\<close> when \<open>n\<close> is negative or more
  than an allocation can hold, and otherwise with \<^verbatim>\<open>makeslice: cap out of range\<close> when \<open>c\<close> is
  less than \<open>n\<close> or more than an allocation can hold.
\<close>

definition make :: "nat \<Rightarrow> 'a \<Rightarrow> 'a heap \<Rightarrow> int \<Rightarrow> int \<Rightarrow> panic + slice \<times> 'a heap" where
  "make lim z h n c =
     (if n < 0 \<or> int lim < n then Inl MakeLenOutOfRange
      else if c < n \<or> int lim < c then Inl MakeCapOutOfRange
      else Inr (\<lparr>base = length h, off = 0, len = nat n, cap = nat c\<rparr>,
                h @ [replicate (nat c) z]))"

text \<open>
  The builtin \<^verbatim>\<open>append(s, v...)\<close>. With enough capacity the values are written behind the
  view, in its own array. Otherwise a new array is allocated, which the language
  specification only requires to be sufficiently large: its capacity is the needed length
  or what the growth policy \<open>g\<close> of the run-time system asks for, whichever is larger. The
  run-time system panics with \<^verbatim>\<open>growslice: len out of range\<close> when the needed length is not
  an \<^verbatim>\<open>int\<close> any more or the new array is more than an allocation can hold.
\<close>

definition append_slice ::
  "nat \<Rightarrow> (nat \<Rightarrow> nat \<Rightarrow> nat) \<Rightarrow> 'a \<Rightarrow> 'a heap \<Rightarrow> slice \<Rightarrow> slice \<Rightarrow> panic + slice \<times> 'a heap"
  where
  "append_slice lim g z h s v =
     (let need = len s + len v in
      if need \<le> cap s
      then Inr (s\<lparr>len := need\<rparr>,
            store h \<lparr>base = base s, off = off s + len s, len = len v, cap = cap s - len s\<rparr>
              (contents h v))
      else (let c = max need (g (cap s) need) in
            if 2 ^ 63 \<le> int need \<or> lim < c then Inl GrowsliceLenOutOfRange
            else Inr (\<lparr>base = length h, off = 0, len = need, cap = c\<rparr>,
                      h @ [contents h s @ contents h v @ replicate (c - need) z])))"

text \<open>
  A call with the values written out, \<^verbatim>\<open>f(s, i, x, y)\<close>, passes a new slice that holds
  them; a call \<^verbatim>\<open>f(s, i, v...)\<close> passes the slice \<open>v\<close> itself.
\<close>

definition variadic :: "'a heap \<Rightarrow> 'a list \<Rightarrow> slice \<times> 'a heap" where
  "variadic h xs = (\<lparr>base = length h, off = 0, len = length xs, cap = length xs\<rparr>, h @ [xs])"

subsection \<open>The functions of package slices\<close>

text \<open>
  \<^verbatim>\<open>Compare\<close>: the loop over the common indices, followed by the comparison of the lengths.
\<close>

function Compare_loop ::
  "('a::linorder) heap \<Rightarrow> slice \<Rightarrow> slice \<Rightarrow> nat \<Rightarrow> nat \<Rightarrow> panic + int" where
  "Compare_loop h s1 s2 maxLen i =
     (if i < maxLen then
        bnd (index h s1 (int i)) (\<lambda>a.
        bnd (index h s2 (int i)) (\<lambda>b.
        if a = b then Compare_loop h s1 s2 maxLen (i + 1)
        else
          bnd (index h s1 (int i)) (\<lambda>a'.
          bnd (index h s2 (int i)) (\<lambda>b'.
          if a' < b' then Inr (- 1) else Inr 1))))
      else if len s1 = len s2 then Inr 0
      else if len s1 < len s2 then Inr (- 1)
      else Inr 1)"
  by pat_completeness auto
termination
  by (relation "measure (\<lambda>(h, s1, s2, maxLen, i). maxLen - i)") auto

definition Compare :: "('a::linorder) heap \<Rightarrow> slice \<Rightarrow> slice \<Rightarrow> panic + int" where
  "Compare h s1 s2 =
     (let maxLen = (if len s1 > len s2 then len s2 else len s1)
      in Compare_loop h s1 s2 maxLen 0)"

function Index_loop :: "'a heap \<Rightarrow> slice \<Rightarrow> 'a \<Rightarrow> nat \<Rightarrow> panic + int" where
  "Index_loop h s v i =
     (if i < len s then
        bnd (index h s (int i)) (\<lambda>x.
        if x = v then Inr (int i) else Index_loop h s v (i + 1))
      else Inr (- 1))"
  by pat_completeness auto
termination
  by (relation "measure (\<lambda>(h, s, v, i). len s - i)") auto

definition Index :: "'a heap \<Rightarrow> slice \<Rightarrow> 'a \<Rightarrow> panic + int" where
  "Index h s v = Index_loop h s v 0"

function Contains_loop :: "'a heap \<Rightarrow> slice \<Rightarrow> 'a \<Rightarrow> nat \<Rightarrow> panic + bool" where
  "Contains_loop h s v i =
     (if i < len s then
        bnd (index h s (int i)) (\<lambda>x.
        if x = v then Inr True else Contains_loop h s v (i + 1))
      else Inr False)"
  by pat_completeness auto
termination
  by (relation "measure (\<lambda>(h, s, v, i). len s - i)") auto

definition Contains :: "'a heap \<Rightarrow> slice \<Rightarrow> 'a \<Rightarrow> panic + bool" where
  "Contains h s v = Contains_loop h s v 0"

text \<open>
  \<^verbatim>\<open>Insert\<close> does not build as it is shipped. Its variadic parameter is named \<^verbatim>\<open>v\<close>, while
  the body reads \<^verbatim>\<open>vs\<close>, a name that is declared nowhere; and the second branch allocates
  \<^verbatim>\<open>make([]int, ...)\<close> and returns it as \<^verbatim>\<open>S\<close>. So the shipped function has no behaviour to
  embed. \<open>Insert_repaired\<close> is its body with these two slips put right and nothing else
  changed: \<open>vs\<close> is the variadic parameter, and the new array has the element type. What is
  proved of \<open>Insert_repaired\<close> says what the body computes once it builds; it is not a
  property of the shipped package.
\<close>

definition Insert_repaired ::
  "nat \<Rightarrow> 'a \<Rightarrow> 'a heap \<Rightarrow> slice \<Rightarrow> int \<Rightarrow> slice \<Rightarrow> panic + slice \<times> 'a heap" where
  "Insert_repaired lim z h s i vs =
     (let n = wrap64 (int (len s) + int (len vs)) in
      if n \<le> int (cap s) then
        bnd (slice_to s n) (\<lambda>s2.
        bnd (slice_from s2 (wrap64 (i + int (len vs)))) (\<lambda>d1.
        bnd (slice_from s i) (\<lambda>src1.
        case copy h d1 src1 of (c1, h1) \<Rightarrow>
        bnd (slice_from s2 i) (\<lambda>d2.
        case copy h1 d2 vs of (c2, h2) \<Rightarrow> Inr (s2, h2)))))
      else
        bnd (make lim z h n n) (\<lambda>(s2, h0).
        bnd (slice_to s i) (\<lambda>src1.
        case copy h0 s2 src1 of (c1, h1) \<Rightarrow>
        bnd (slice_from s2 i) (\<lambda>d2.
        case copy h1 d2 vs of (c2, h2) \<Rightarrow>
        bnd (slice_from s2 (wrap64 (i + int (len vs)))) (\<lambda>d3.
        bnd (slice_from s i) (\<lambda>src3.
        case copy h2 d3 src3 of (c3, h3) \<Rightarrow> Inr (s2, h3)))))))"

definition Delete :: "'a heap \<Rightarrow> slice \<Rightarrow> int \<Rightarrow> int \<Rightarrow> panic + slice \<times> 'a heap" where
  "Delete h s i j =
     bnd (slice_from s i) (\<lambda>dst.
     bnd (slice_from s j) (\<lambda>src.
     case copy h dst src of (n, h') \<Rightarrow>
     bnd (slice_to s (i + int n)) (\<lambda>r. Inr (r, h'))))"

definition Clone :: "nat \<Rightarrow> 'a \<Rightarrow> 'a heap \<Rightarrow> slice \<Rightarrow> panic + slice \<times> 'a heap" where
  "Clone lim z h s =
     bnd (make lim z h (int (len s)) (int (cap s))) (\<lambda>(s2, h1).
     case copy h1 s2 s of (c, h2) \<Rightarrow> Inr (s2, h2))"

text \<open>
  \<^verbatim>\<open>Compact\<close> and \<^verbatim>\<open>CompactFunc\<close>: the loop returns the final \<open>j\<close> and the heap it leaves.
\<close>

function Compact_loop :: "'a heap \<Rightarrow> slice \<Rightarrow> nat \<Rightarrow> nat \<Rightarrow> panic + nat \<times> 'a heap" where
  "Compact_loop h s i j =
     (if i < len s then
        bnd (index h s (int i)) (\<lambda>x.
        bnd (index h s (int j - 1)) (\<lambda>y.
        if x = y then Compact_loop h s (i + 1) j
        else
          bnd (index h s (int i)) (\<lambda>x'.
          bnd (assign h s (int j) x') (\<lambda>h'.
          Compact_loop h' s (i + 1) (j + 1)))))
      else Inr (j, h))"
  by pat_completeness auto
termination
  by (relation "measure (\<lambda>(h, s, i, j). len s - i)") auto

definition Compact :: "'a heap \<Rightarrow> slice \<Rightarrow> panic + slice \<times> 'a heap" where
  "Compact h s =
     (if len s = 0 \<or> len s = 1 then Inr (s, h)
      else
        bnd (Compact_loop h s 1 1) (\<lambda>(j, h').
        bnd (slice_to s (int j)) (\<lambda>r. Inr (r, h'))))"

function CompactFunc_loop ::
  "'a heap \<Rightarrow> slice \<Rightarrow> ('a \<Rightarrow> 'a \<Rightarrow> bool) \<Rightarrow> nat \<Rightarrow> nat \<Rightarrow> panic + nat \<times> 'a heap" where
  "CompactFunc_loop h s cmp i j =
     (if i < len s then
        bnd (index h s (int i)) (\<lambda>x.
        bnd (index h s (int j - 1)) (\<lambda>y.
        if cmp x y then CompactFunc_loop h s cmp (i + 1) j
        else
          bnd (index h s (int i)) (\<lambda>x'.
          bnd (assign h s (int j) x') (\<lambda>h'.
          CompactFunc_loop h' s cmp (i + 1) (j + 1)))))
      else Inr (j, h))"
  by pat_completeness auto
termination
  by (relation "measure (\<lambda>(h, s, cmp, i, j). len s - i)") auto

definition CompactFunc ::
  "'a heap \<Rightarrow> slice \<Rightarrow> ('a \<Rightarrow> 'a \<Rightarrow> bool) \<Rightarrow> panic + slice \<times> 'a heap" where
  "CompactFunc h s cmp =
     (if len s = 0 \<or> len s = 1 then Inr (s, h)
      else
        bnd (CompactFunc_loop h s cmp 1 1) (\<lambda>(j, h').
        bnd (slice_to s (int j)) (\<lambda>r. Inr (r, h'))))"

definition Grow ::
  "nat \<Rightarrow> (nat \<Rightarrow> nat \<Rightarrow> nat) \<Rightarrow> 'a \<Rightarrow> 'a heap \<Rightarrow> slice \<Rightarrow> int \<Rightarrow> panic + slice \<times> 'a heap"
  where
  "Grow lim g z h s n =
     bnd (slice_to s (int (cap s))) (\<lambda>t.
     bnd (make lim z h n n) (\<lambda>(m, h1).
     bnd (append_slice lim g z h1 t m) (\<lambda>(r, h2).
     bnd (slice_to r (int (len s))) (\<lambda>r'. Inr (r', h2)))))"

text \<open>
  The expression of the round-trip property, \<^verbatim>\<open>Delete(Insert(Clone(s), i, x), i, i+1)\<close>, with
  the single value \<open>x\<close> passed as a variadic argument and the repaired body for \<^verbatim>\<open>Insert\<close>.
\<close>

definition insert_delete_repaired ::
  "nat \<Rightarrow> 'a \<Rightarrow> 'a heap \<Rightarrow> slice \<Rightarrow> int \<Rightarrow> 'a \<Rightarrow> panic + slice \<times> 'a heap" where
  "insert_delete_repaired lim z h s i x =
     bnd (Clone lim z h s) (\<lambda>(c, h1).
     case variadic h1 [x] of (v, h2) \<Rightarrow>
     bnd (Insert_repaired lim z h2 c i v) (\<lambda>(r, h3).
     Delete h3 r i (i + 1)))"

text \<open>The positions of its array that a view shows.\<close>

definition cells :: "slice \<Rightarrow> nat set" where
  "cells s = {off s ..< off s + len s}"

subsection \<open>What the compacting loop keeps\<close>

text \<open>
  \<open>kept cmp y xs\<close> are the elements of \<open>xs\<close> that the loop of \<^verbatim>\<open>CompactFunc\<close> keeps when \<open>y\<close>
  is the element kept last: an element is dropped when \<open>cmp\<close> holds of it and the element
  kept last, and otherwise becomes the element kept last. \<open>compacted cmp xs\<close> keeps the
  first element as well. The two functions state results; the loops above do not use them.
\<close>

fun kept :: "('a \<Rightarrow> 'a \<Rightarrow> bool) \<Rightarrow> 'a \<Rightarrow> 'a list \<Rightarrow> 'a list" where
  "kept cmp y [] = []"
| "kept cmp y (x # xs) = (if cmp x y then kept cmp y xs else x # kept cmp x xs)"

fun compacted :: "('a \<Rightarrow> 'a \<Rightarrow> bool) \<Rightarrow> 'a list \<Rightarrow> 'a list" where
  "compacted cmp [] = []"
| "compacted cmp (x # xs) = x # kept cmp x xs"

text \<open>The loop equations are unfolded one iteration at a time, where a proof asks for it.\<close>

declare Compare_loop.simps [simp del]
declare Index_loop.simps [simp del]
declare Contains_loop.simps [simp del]
declare Compact_loop.simps [simp del]
declare CompactFunc_loop.simps [simp del]

section \<open>Properties of the primitives\<close>

lemma bnd_Inl [simp]: "bnd (Inl e) f = Inl e"
  by (simp add: bnd_def)

lemma bnd_Inr [simp]: "bnd (Inr x) f = f x"
  by (simp add: bnd_def)

lemma slice_from_ok:
  "0 \<le> i \<Longrightarrow> i \<le> int (len s) \<Longrightarrow> len s \<le> cap s \<Longrightarrow>
   slice_from s i =
     Inr \<lparr>base = base s, off = off s + nat i, len = len s - nat i, cap = cap s - nat i\<rparr>"
  by (simp add: slice_from_def slice_expr_def nat_diff_distrib)

lemma slice_from_panic:
  "i < 0 \<or> int (len s) < i \<Longrightarrow> slice_from s i = Inl SliceBoundsOutOfRange"
  by (auto simp add: slice_from_def slice_expr_def)

lemma slice_to_ok:
  "0 \<le> k \<Longrightarrow> k \<le> int (cap s) \<Longrightarrow> slice_to s k = Inr (s\<lparr>len := nat k\<rparr>)"
  by (simp add: slice_to_def slice_expr_def)

lemma slice_to_panic:
  "k < 0 \<or> int (cap s) < k \<Longrightarrow> slice_to s k = Inl SliceBoundsOutOfRange"
  by (auto simp add: slice_to_def slice_expr_def)

lemma length_overwrite: "k + length xs \<le> length a \<Longrightarrow> length (overwrite a k xs) = length a"
  by (simp add: overwrite_def)

lemma overwrite_nil [simp]: "overwrite a k [] = a"
  by (simp add: overwrite_def)

lemma nth_overwrite:
  "k + length xs \<le> length a \<Longrightarrow> m < length a \<Longrightarrow>
   overwrite a k xs ! m = (if k \<le> m \<and> m < k + length xs then xs ! (m - k) else a ! m)"
  by (auto simp add: overwrite_def nth_append min_def)

lemma overwrite_same: "overwrite a k (take n (drop k a)) = a"
proof -
  have "take k a @ take n (drop k a) @ drop (k + n) a = a"
    by (metis append_assoc append_take_drop_id take_add)
  moreover have "drop (k + length (take n (drop k a))) a = drop (k + n) a"
    by (cases "k + n \<le> length a") (auto simp add: min_def)
  ultimately show ?thesis by (simp only: overwrite_def)
qed

text \<open>A view that contains the overwritten cells sees the new values between the old ones.\<close>

lemma drop_take_overwrite:
  assumes "o' + l \<le> length a" "k + length xs \<le> l"
  shows "take l (drop o' (overwrite a (o' + k) xs)) =
         take k (take l (drop o' a)) @ xs @ drop (k + length xs) (take l (drop o' a))"
proof (rule nth_equalityI)
  show "length (take l (drop o' (overwrite a (o' + k) xs))) =
        length (take k (take l (drop o' a)) @ xs @ drop (k + length xs) (take l (drop o' a)))"
    using assms by (simp add: length_overwrite)
next
  fix m assume "m < length (take l (drop o' (overwrite a (o' + k) xs)))"
  then have m: "m < l" by simp
  have lo: "length (overwrite a (o' + k) xs) = length a"
    using assms by (simp add: length_overwrite)
  show "take l (drop o' (overwrite a (o' + k) xs)) ! m =
        (take k (take l (drop o' a)) @ xs @ drop (k + length xs) (take l (drop o' a))) ! m"
    using assms m lo by (auto simp add: nth_overwrite nth_append add.commute)
qed

text \<open>A view that lies apart from the overwritten cells is unchanged.\<close>

lemma drop_take_overwrite_disjoint:
  assumes "o' + l \<le> length a" "k + length xs \<le> length a"
    "o' + l \<le> k \<or> k + length xs \<le> o'"
  shows "take l (drop o' (overwrite a k xs)) = take l (drop o' a)"
proof (rule nth_equalityI)
  show "length (take l (drop o' (overwrite a k xs))) = length (take l (drop o' a))"
    using assms by (simp add: length_overwrite)
next
  fix m assume "m < length (take l (drop o' (overwrite a k xs)))"
  then have m: "m < l" by simp
  have lo: "length (overwrite a k xs) = length a"
    using assms by (simp add: length_overwrite)
  show "take l (drop o' (overwrite a k xs)) ! m = take l (drop o' a) ! m"
    using assms m lo by (auto simp add: nth_overwrite)
qed

lemma length_store [simp]: "length (store h d xs) = length h"
  by (simp add: store_def)

lemma store_other: "p \<noteq> base d \<Longrightarrow> store h d xs ! p = h ! p"
  by (simp add: store_def)

lemma store_same:
  "base d < length h \<Longrightarrow> store h d xs ! base d = overwrite (h ! base d) (off d) xs"
  by (simp add: store_def)

lemma store_nil [simp]: "store h d [] = h"
  by (simp add: store_def)

lemma length_contents: "valid h s \<Longrightarrow> length (contents h s) = len s"
  by (auto simp add: contents_def valid_def)

lemma contents_shorter: "m \<le> len s \<Longrightarrow> contents h (s\<lparr>len := m\<rparr>) = take m (contents h s)"
  by (simp add: contents_def)

lemma valid_store:
  assumes "base d < length h" "off d + length xs \<le> length (h ! base d)"
  shows "valid (store h d xs) s = valid h s"
proof (cases "base s = base d")
  case True
  then show ?thesis using assms by (simp add: valid_def store_same length_overwrite)
next
  case False
  then show ?thesis by (simp add: valid_def store_other)
qed

lemma contents_store_within:
  assumes "valid h s" "base d = base s" "off d = off s + k" "k + length xs \<le> len s"
  shows "contents (store h d xs) s =
         take k (contents h s) @ xs @ drop (k + length xs) (contents h s)"
proof -
  have a: "off s + len s \<le> length (h ! base s)" and b: "base d < length h"
    using assms(1,2) by (simp_all add: valid_def)
  have "store h d xs ! base s = overwrite (h ! base s) (off s + k) xs"
    using store_same [OF b, of xs] assms(2,3) by simp
  then show ?thesis
    using drop_take_overwrite [OF a assms(4)] by (simp add: contents_def)
qed

lemma contents_store_apart:
  assumes "valid h s" "base d < length h" "off d + length xs \<le> length (h ! base d)"
    "base s \<noteq> base d \<or> off s + len s \<le> off d \<or> off d + length xs \<le> off s"
  shows "contents (store h d xs) s = contents h s"
proof (cases "base s = base d")
  case True
  have a: "off s + len s \<le> length (h ! base s)"
    using assms(1) by (simp add: valid_def)
  have "store h d xs ! base s = overwrite (h ! base s) (off d) xs"
    using store_same [OF assms(2), of xs] True by simp
  then show ?thesis
    using True assms(3,4) drop_take_overwrite_disjoint [OF a, of "off d" xs]
    by (simp add: contents_def)
next
  case False
  then show ?thesis by (simp add: contents_def store_other)
qed

lemma copy_result:
  "len src \<le> len dst \<Longrightarrow> valid h src \<Longrightarrow>
   copy h dst src = (len src, store h dst (contents h src))"
  by (simp add: copy_def Let_def min_def length_contents)

lemma contents_slice_from:
  "contents h \<lparr>base = base s, off = off s + k, len = len s - k, cap = c\<rparr> =
   drop k (contents h s)"
  by (simp add: contents_def drop_take add.commute)

lemma valid_slice_from:
  "valid h s \<Longrightarrow> k \<le> len s \<Longrightarrow>
   valid h \<lparr>base = base s, off = off s + k, len = len s - k, cap = cap s - k\<rparr>"
  by (auto simp add: valid_def)

lemma interval_disjoint:
  fixes a b c d :: nat
  assumes "{a ..< b} \<inter> {c ..< d} = {}"
  shows "b \<le> a \<or> d \<le> c \<or> b \<le> c \<or> d \<le> a"
proof (rule ccontr)
  assume "\<not> (b \<le> a \<or> d \<le> c \<or> b \<le> c \<or> d \<le> a)"
  then have "max a c \<in> {a ..< b} \<inter> {c ..< d}" by auto
  with assms show False by simp
qed

text \<open>A store leaves a view alone that is in another array, or shows none of the written cells.\<close>

lemma contents_store_disjoint:
  assumes "valid h s" "base d < length h" "off d + length xs \<le> length (h ! base d)"
    "base s = base d \<Longrightarrow> cells s \<inter> {off d ..< off d + length xs} = {}"
  shows "contents (store h d xs) s = contents h s"
proof (cases "base s = base d")
  case False
  then show ?thesis using assms(1-3) by (intro contents_store_apart) auto
next
  case True
  from assms(4) [OF True]
  have "off s + len s \<le> off s \<or> off d + length xs \<le> off d
      \<or> off s + len s \<le> off d \<or> off d + length xs \<le> off s"
    unfolding cells_def by (rule interval_disjoint)
  then consider "len s = 0" | "xs = []"
    | "off s + len s \<le> off d \<or> off d + length xs \<le> off s"
    by auto
  then show ?thesis
  proof cases
    case 1
    then show ?thesis by (simp add: contents_def)
  next
    case 2
    then show ?thesis by simp
  next
    case 3
    then show ?thesis using assms(1-3) by (intro contents_store_apart) auto
  qed
qed

lemma valid_grown_heap: "valid h s \<Longrightarrow> valid (h @ hs) s"
  by (simp add: valid_def nth_append)

lemma contents_grown_heap: "valid h s \<Longrightarrow> contents (h @ hs) s = contents h s"
  by (simp add: valid_def contents_def nth_append)

lemma make_ok:
  "0 \<le> n \<Longrightarrow> n \<le> c \<Longrightarrow> c \<le> int lim \<Longrightarrow>
   make lim z h n c =
     Inr (\<lparr>base = length h, off = 0, len = nat n, cap = nat c\<rparr>, h @ [replicate (nat c) z])"
  by (simp add: make_def)

lemma wrap64_id: "- (2 ^ 63) \<le> x \<Longrightarrow> x < 2 ^ 63 \<Longrightarrow> wrap64 x = x"
proof -
  assume a: "- (2 ^ 63) \<le> x" "x < 2 ^ 63"
  have "(x + 2 ^ 63) mod 2 ^ 64 = x + 2 ^ 63"
    using a by (intro mod_pos_pos_trivial) auto
  then show ?thesis by (simp add: wrap64_def)
qed

lemma wrap64_over: "2 ^ 63 \<le> x \<Longrightarrow> x < 2 ^ 64 \<Longrightarrow> wrap64 x = x - 2 ^ 64"
proof -
  assume a: "2 ^ 63 \<le> x" "x < 2 ^ 64"
  have "(x + 2 ^ 63) mod 2 ^ 64 = (x + 2 ^ 63 - 2 ^ 64) mod 2 ^ 64"
    by (rule minus_mod_self2 [symmetric])
  also have "\<dots> = x + 2 ^ 63 - 2 ^ 64"
    using a by (intro mod_pos_pos_trivial) auto
  finally show ?thesis by (simp add: wrap64_def)
qed

section \<open>Delete\<close>

lemma Delete_result:
  assumes "valid h s" "0 \<le> i" "i \<le> j" "j \<le> int (len s)"
  shows "Delete h s i j =
    Inr (s\<lparr>len := len s - (nat j - nat i)\<rparr>,
      store h \<lparr>base = base s, off = off s + nat i, len = len s - nat i, cap = cap s - nat i\<rparr>
        (drop (nat j) (contents h s)))"
proof -
  have c: "len s \<le> cap s" using assms by (simp add: valid_def)
  let ?dst = "\<lparr>base = base s, off = off s + nat i, len = len s - nat i, cap = cap s - nat i\<rparr>"
  let ?src = "\<lparr>base = base s, off = off s + nat j, len = len s - nat j, cap = cap s - nat j\<rparr>"
  have d: "slice_from s i = Inr ?dst" using assms c by (simp add: slice_from_ok)
  have e: "slice_from s j = Inr ?src" using assms c by (simp add: slice_from_ok)
  have v: "valid h ?src" using assms by (intro valid_slice_from) auto
  have l: "len ?src \<le> len ?dst" using assms by simp
  have cp: "copy h ?dst ?src = (len s - nat j, store h ?dst (drop (nat j) (contents h s)))"
    using copy_result [OF l v] by (simp add: contents_slice_from)
  have k: "i + int (len s - nat j) = int (len s - (nat j - nat i))" using assms by auto
  have t: "slice_to s (i + int (len s - nat j)) = Inr (s\<lparr>len := len s - (nat j - nat i)\<rparr>)"
    unfolding k using c by (simp add: slice_to_ok)
  show ?thesis by (simp add: Delete_def d e cp t)
qed

text \<open>
  When does \<^verbatim>\<open>Delete\<close> panic? Exactly when one of the two slice expressions \<^verbatim>\<open>s[i:]\<close> and
  \<^verbatim>\<open>s[j:]\<close> does, that is when \<open>i\<close> or \<open>j\<close> lies outside \<open>[0, len s]\<close>. The order of \<open>i\<close>
  and \<open>j\<close> plays no part: nothing in the body evaluates \<^verbatim>\<open>s[i:j]\<close>.
\<close>

lemma Delete_panics_iff:
  assumes "valid h s"
  shows "(\<exists>e. Delete h s i j = Inl e) \<longleftrightarrow>
         \<not> (0 \<le> i \<and> i \<le> int (len s) \<and> 0 \<le> j \<and> j \<le> int (len s))"
proof (cases "0 \<le> i \<and> i \<le> int (len s)")
  case False
  then have "slice_from s i = Inl SliceBoundsOutOfRange"
    by (intro slice_from_panic) auto
  with False show ?thesis by (auto simp add: Delete_def)
next
  case i: True
  have c: "len s \<le> cap s" using assms by (simp add: valid_def)
  show ?thesis
  proof (cases "0 \<le> j \<and> j \<le> int (len s)")
    case False
    then have "slice_from s j = Inl SliceBoundsOutOfRange"
      by (intro slice_from_panic) auto
    with False i c show ?thesis by (simp add: Delete_def slice_from_ok)
  next
    case j: True
    have "0 \<le> i + int (min (len s - nat i) (len s - nat j))"
      "i + int (min (len s - nat i) (len s - nat j)) \<le> int (cap s)"
      using i j c by auto
    then show ?thesis
      using i j c by (simp add: Delete_def slice_from_ok copy_def Let_def slice_to_ok)
  qed
qed

text \<open>
  C1. The claim: \<^verbatim>\<open>Delete(s, i, j)\<close> panics if and only if not \<open>0 \<le> i \<le> j \<le> len s\<close>, in
  particular whenever \<open>i > j\<close> with both inside \<open>[0, len s]\<close>. The comment of the function
  says the same (\<^verbatim>\<open>Delete panics if s[i:j] is not a valid slice of s\<close>). The body does not:
  on the slice \<open>[1, 2, 3]\<close> with \<open>i = 2\<close> and \<open>j = 1\<close> it returns normally, with the length
  unchanged and the last element overwritten by the one before it.
\<close>

theorem Delete_reversed_range_returns:
  "Delete [[1, 2, 3 :: int]] \<lparr>base = 0, off = 0, len = 3, cap = 3\<rparr> 2 1 =
     Inr (\<lparr>base = 0, off = 0, len = 3, cap = 3\<rparr>, [[1, 2, 2]])"
  by (simp add: Delete_def slice_from_def slice_to_def slice_expr_def copy_def store_def
      overwrite_def contents_def)

text \<open>The result of \<^verbatim>\<open>Delete\<close> on a range \<open>0 \<le> i \<le> j \<le> len s\<close>, and the heap it leaves.\<close>

lemma Delete_in_range:
  assumes "valid h s" "0 \<le> i" "i \<le> j" "j \<le> int (len s)"
  shows "\<exists>r h'. Delete h s i j = Inr (r, h')
     \<and> int (len r) = int (len s) - (j - i)
     \<and> contents h' r = take (nat i) (contents h s) @ drop (nat j) (contents h s)
     \<and> base r = base s \<and> off r = off s \<and> cap r = cap s \<and> valid h' r
     \<and> h' = h[base s := overwrite (h ! base s) (off s + nat i) (drop (nat j) (contents h s))]
     \<and> length h' = length h"
proof -
  let ?d = "\<lparr>base = base s, off = off s + nat i, len = len s - nat i, cap = cap s - nat i\<rparr>"
  let ?xs = "drop (nat j) (contents h s)"
  let ?r = "s\<lparr>len := len s - (nat j - nat i)\<rparr>"
  have b: "base s < length h" and o: "off s + cap s \<le> length (h ! base s)"
    and c: "len s \<le> cap s"
    using assms(1) by (simp_all add: valid_def)
  have lc: "length (contents h s) = len s" using assms(1) by (rule length_contents)
  have lx: "length ?xs = len s - nat j" using lc by simp
  have res: "Delete h s i j = Inr (?r, store h ?d ?xs)"
    using assms by (rule Delete_result)
  have fits: "off ?d + length ?xs \<le> length (h ! base ?d)"
    using assms o c lx by simp
  have vr: "valid h ?r" using assms(1) by (auto simp add: valid_def)
  have v': "valid (store h ?d ?xs) ?r"
    using valid_store [of ?d h ?xs ?r] b fits vr by simp
  have n: "nat i \<le> nat j" "nat j \<le> len s" using assms by auto
  have ke: "nat i + length ?xs = len ?r" unfolding lx using n by simp
  then have k: "nat i + length ?xs \<le> len ?r" by simp
  have "contents (store h ?d ?xs) ?r =
        take (nat i) (contents h ?r) @ ?xs @ drop (nat i + length ?xs) (contents h ?r)"
    by (rule contents_store_within [OF vr _ _ k]) simp_all
  moreover have "take (nat i) (contents h ?r) = take (nat i) (contents h s)"
    using n by (simp add: contents_shorter)
  moreover have "drop (nat i + length ?xs) (contents h ?r) = []"
    using ke length_contents [OF vr] by simp
  ultimately have cont: "contents (store h ?d ?xs) ?r = take (nat i) (contents h s) @ ?xs"
    by simp
  have ln: "int (len ?r) = int (len s) - (j - i)" using assms by simp
  show ?thesis
    unfolding res using cont ln v' assms(2,3) by (simp add: store_def)
qed

text \<open>
  C4. For \<open>0 \<le> i \<le> j \<le> len s\<close>, \<^verbatim>\<open>Delete(s, i, j)\<close> returns a view of the same array, from
  the same start and with the same capacity, of length \<open>len s - (j - i)\<close>, which shows
  \<open>s[0:i]\<close> followed by \<open>s[j:]\<close>. The heap it leaves has the same arrays (nothing is
  allocated), all unchanged but the array of \<open>s\<close>, where the elements \<open>s[j:]\<close> have been
  written from index \<open>i\<close> of the view on. \<^verbatim>\<open>Delete([1,2,3,4,5], 1, 3)\<close> is \<open>[1,4,5]\<close>.
\<close>

theorem Delete_shifts_tail:
  assumes "valid h s" "0 \<le> i" "i \<le> j" "j \<le> int (len s)"
  shows "(\<exists>r h'. Delete h s i j = Inr (r, h')
       \<and> int (len r) = int (len s) - (j - i)
       \<and> contents h' r = take (nat i) (contents h s) @ drop (nat j) (contents h s)
       \<and> base r = base s \<and> off r = off s \<and> cap r = cap s \<and> valid h' r
       \<and> h' = h[base s := overwrite (h ! base s) (off s + nat i) (drop (nat j) (contents h s))]
       \<and> length h' = length h)
     \<and> Delete [[1, 2, 3, 4, 5 :: int]] \<lparr>base = 0, off = 0, len = 5, cap = 5\<rparr> 1 3 =
         Inr (\<lparr>base = 0, off = 0, len = 3, cap = 5\<rparr>, [[1, 4, 5, 4, 5]])
     \<and> contents [[1, 4, 5, 4, 5 :: int]] \<lparr>base = 0, off = 0, len = 3, cap = 5\<rparr> = [1, 4, 5]"
proof -
  have ex: "Delete [[1, 2, 3, 4, 5 :: int]] \<lparr>base = 0, off = 0, len = 5, cap = 5\<rparr> 1 3 =
         Inr (\<lparr>base = 0, off = 0, len = 3, cap = 5\<rparr>, [[1, 4, 5, 4, 5]])"
    by (simp add: Delete_def slice_from_def slice_to_def slice_expr_def copy_def store_def
        overwrite_def contents_def)
  have ex2: "contents [[1, 4, 5, 4, 5 :: int]] \<lparr>base = 0, off = 0, len = 3, cap = 5\<rparr> = [1, 4, 5]"
    by (simp add: contents_def)
  from Delete_in_range [OF assms] ex ex2 show ?thesis by (intro conjI)
qed

theorem Delete_shifts_tail_witness:
  "valid [[1, 2, 3, 4, 5 :: int]] \<lparr>base = 0, off = 0, len = 5, cap = 5\<rparr> \<and>
   (\<exists>r h'. Delete [[1, 2, 3, 4, 5 :: int]] \<lparr>base = 0, off = 0, len = 5, cap = 5\<rparr> 1 3 = Inr (r, h')
      \<and> len r = 3 \<and> contents h' r = [1, 4, 5] \<and> h' = [[1, 4, 5, 4, 5]])"
proof -
  let ?s = "\<lparr>base = 0, off = 0, len = 5, cap = 5\<rparr>"
  have v: "valid [[1, 2, 3, 4, 5 :: int]] ?s" by (simp add: valid_def)
  have "\<exists>r h'. Delete [[1, 2, 3, 4, 5 :: int]] ?s 1 3 = Inr (r, h')
      \<and> int (len r) = 3 \<and> contents h' r = [1, 4, 5] \<and> h' = [[1, 4, 5, 4, 5]]"
    using Delete_shifts_tail [OF v, of 1 3] by (auto simp add: contents_def overwrite_def)
  then show ?thesis using v by simp
qed

text \<open>
  C9. An empty range: for \<open>0 \<le> i \<le> len s\<close>, \<^verbatim>\<open>Delete(s, i, i)\<close> returns the view \<open>s\<close> itself
  and leaves every array as it was.
\<close>

theorem Delete_empty_range:
  assumes "valid h s" "0 \<le> i" "i \<le> int (len s)"
  shows "Delete h s i i = Inr (s, h)"
proof -
  let ?d = "\<lparr>base = base s, off = off s + nat i, len = len s - nat i, cap = cap s - nat i\<rparr>"
  have "Delete h s i i = Inr (s\<lparr>len := len s - (nat i - nat i)\<rparr>,
      store h ?d (drop (nat i) (contents h s)))"
    using assms by (intro Delete_result) auto
  moreover have "drop (nat i) (contents h s) =
      take (len s - nat i) (drop (off s + nat i) (h ! base s))"
    by (simp add: contents_def drop_take add.commute)
  moreover have "store h ?d (take (len s - nat i) (drop (off s + nat i) (h ! base s))) = h"
    by (simp add: store_def overwrite_same)
  ultimately show ?thesis by simp
qed

theorem Delete_empty_range_witness:
  "valid [[1, 2, 3 :: int]] \<lparr>base = 0, off = 0, len = 3, cap = 3\<rparr> \<and>
   Delete [[1, 2, 3 :: int]] \<lparr>base = 0, off = 0, len = 3, cap = 3\<rparr> 2 2 =
     Inr (\<lparr>base = 0, off = 0, len = 3, cap = 3\<rparr>, [[1, 2, 3]])"
proof -
  have v: "valid [[1, 2, 3 :: int]] \<lparr>base = 0, off = 0, len = 3, cap = 3\<rparr>"
    by (simp add: valid_def)
  show ?thesis using v Delete_empty_range [OF v, of 2] by simp
qed

section \<open>Reading loops: Index, Contains, Compare\<close>

lemma index_in_range:
  "i < len s \<Longrightarrow> index h s (int i) = Inr (h ! base s ! (off s + i))"
  by (simp add: index_def)

lemma index_contents:
  "valid h s \<Longrightarrow> i < len s \<Longrightarrow> index h s (int i) = Inr (contents h s ! i)"
  by (simp add: index_def contents_def valid_def)

lemma Contains_loop_Index_loop:
  "\<exists>b k. Contains_loop h s v i = Inr b \<and> Index_loop h s v i = Inr k \<and> (b \<longleftrightarrow> 0 \<le> k)"
proof (induction h s v i rule: Index_loop.induct)
  case (1 h s v i)
  show ?case
  proof (cases "i < len s")
    case False
    then show ?thesis
      by (auto simp add: Index_loop.simps [of h s v i] Contains_loop.simps [of h s v i])
  next
    case True
    note ix = index_in_range [OF True, of h]
    show ?thesis
    proof (cases "h ! base s ! (off s + i) = v")
      case hit: True
      with True ix show ?thesis
        by (auto simp add: Index_loop.simps [of h s v i] Contains_loop.simps [of h s v i])
    next
      case miss: False
      from "1.IH" [OF True miss] True ix miss show ?thesis
        by (auto simp add: Index_loop.simps [of h s v i] Contains_loop.simps [of h s v i])
    qed
  qed
qed

text \<open>
  C8. \<^verbatim>\<open>Contains\<close> and \<^verbatim>\<open>Index\<close> are two separate loops. On every slice and value both
  return normally, and \<^verbatim>\<open>Contains(s, v)\<close> is true exactly when \<^verbatim>\<open>Index(s, v) >= 0\<close>.
\<close>

theorem Contains_iff_Index_nonneg:
  "\<exists>b k. Contains h s v = Inr b \<and> Index h s v = Inr k \<and> (b \<longleftrightarrow> 0 \<le> k)"
  unfolding Contains_def Index_def by (rule Contains_loop_Index_loop)

theorem Contains_iff_Index_nonneg_witness:
  "Contains [[10, 20, 30 :: int]] \<lparr>base = 0, off = 0, len = 3, cap = 3\<rparr> 20 = Inr True \<and>
   Index [[10, 20, 30 :: int]] \<lparr>base = 0, off = 0, len = 3, cap = 3\<rparr> 20 = Inr 1 \<and>
   Contains [[10, 20, 30 :: int]] \<lparr>base = 0, off = 0, len = 3, cap = 3\<rparr> 99 = Inr False \<and>
   Index [[10, 20, 30 :: int]] \<lparr>base = 0, off = 0, len = 3, cap = 3\<rparr> 99 = Inr (- 1)"
proof -
  let ?h = "[[10, 20, 30 :: int]]" and ?s = "\<lparr>base = 0, off = 0, len = 3, cap = 3\<rparr>"
  have a: "Index ?h ?s 20 = Inr 1"
    by (simp add: Index_def Index_loop.simps index_def)
  have b: "Index ?h ?s 99 = Inr (- 1)"
    by (simp add: Index_def Index_loop.simps index_def)
  from Contains_iff_Index_nonneg [of ?h ?s 20] a have "Contains ?h ?s 20 = Inr True"
    by auto
  moreover from Contains_iff_Index_nonneg [of ?h ?s 99] b have "Contains ?h ?s 99 = Inr False"
    by auto
  ultimately show ?thesis using a b by simp
qed

text \<open>The loop of \<^verbatim>\<open>Compare\<close> from index \<open>i\<close> on, when the first difference is at \<open>k\<close>.\<close>

lemma Compare_loop_differs:
  assumes "valid h s1" "valid h s2" "maxLen \<le> len s1" "maxLen \<le> len s2"
    and "k < maxLen" "contents h s1 ! k \<noteq> contents h s2 ! k"
    and "i \<le> k" "\<forall>m. i \<le> m \<and> m < k \<longrightarrow> contents h s1 ! m = contents h s2 ! m"
  shows "Compare_loop h s1 s2 maxLen i =
         Inr (if contents h s1 ! k < contents h s2 ! k then - 1 else 1)"
  using assms(7,8)
proof (induction "k - i" arbitrary: i)
  case 0
  then have ik: "i = k" by simp
  have "index h s1 (int k) = Inr (contents h s1 ! k)" "index h s2 (int k) = Inr (contents h s2 ! k)"
    using assms(1-5) by (simp_all add: index_contents)
  then show ?case
    using assms(5,6) unfolding ik by (simp add: Compare_loop.simps [of h s1 s2 maxLen k])
next
  case (Suc d)
  then have lt: "i < k" by simp
  then have im: "i < maxLen" using assms(5) by simp
  have eq: "contents h s1 ! i = contents h s2 ! i" using Suc.prems lt by simp
  have "index h s1 (int i) = Inr (contents h s1 ! i)" "index h s2 (int i) = Inr (contents h s2 ! i)"
    using assms(1-4) im by (simp_all add: index_contents)
  then have step: "Compare_loop h s1 s2 maxLen i = Compare_loop h s1 s2 maxLen (i + 1)"
    using im eq by (simp add: Compare_loop.simps [of h s1 s2 maxLen i])
  have "Compare_loop h s1 s2 maxLen (i + 1) =
        Inr (if contents h s1 ! k < contents h s2 ! k then - 1 else 1)"
    using Suc.hyps(2) Suc.prems lt by (intro Suc.hyps(1)) auto
  with step show ?case by simp
qed

text \<open>The loop from index \<open>i\<close> on, when the two slices agree up to \<open>maxLen\<close>.\<close>

lemma Compare_loop_agrees:
  assumes "valid h s1" "valid h s2" "maxLen \<le> len s1" "maxLen \<le> len s2"
    and "i \<le> maxLen" "\<forall>m. i \<le> m \<and> m < maxLen \<longrightarrow> contents h s1 ! m = contents h s2 ! m"
  shows "Compare_loop h s1 s2 maxLen i =
         Inr (if len s1 = len s2 then 0 else if len s1 < len s2 then - 1 else 1)"
  using assms(5,6)
proof (induction "maxLen - i" arbitrary: i)
  case 0
  then have "\<not> i < maxLen" by simp
  then show ?case by (simp add: Compare_loop.simps [of h s1 s2 maxLen i])
next
  case (Suc d)
  then have im: "i < maxLen" by simp
  have eq: "contents h s1 ! i = contents h s2 ! i" using Suc.prems im by simp
  have "index h s1 (int i) = Inr (contents h s1 ! i)" "index h s2 (int i) = Inr (contents h s2 ! i)"
    using assms(1-4) im by (simp_all add: index_contents)
  then have step: "Compare_loop h s1 s2 maxLen i = Compare_loop h s1 s2 maxLen (i + 1)"
    using im eq by (simp add: Compare_loop.simps [of h s1 s2 maxLen i])
  have "Compare_loop h s1 s2 maxLen (i + 1) =
        Inr (if len s1 = len s2 then 0 else if len s1 < len s2 then - 1 else 1)"
    using Suc.hyps(2) Suc.prems im by (intro Suc.hyps(1)) auto
  with step show ?case by simp
qed

text \<open>
  C5. \<^verbatim>\<open>Compare\<close> is lexicographic. Let \<open>xs\<close> and \<open>ys\<close> be the elements of \<open>s1\<close> and \<open>s2\<close>.
  If \<open>k\<close> is the first index below both lengths where they differ, the result is \<open>-1\<close> when
  \<open>xs ! k < ys ! k\<close> and \<open>+1\<close> otherwise. If they agree on all common indices, the result is
  \<open>0\<close> for equal lengths, \<open>-1\<close> when \<open>s1\<close> is shorter and \<open>+1\<close> when it is longer. In every
  case \<^verbatim>\<open>Compare\<close> returns normally, with one of these three values.
  \<^verbatim>\<open>Compare([1,2],[1,2,3])\<close> is \<open>-1\<close> and \<^verbatim>\<open>Compare([1,3],[1,2,3])\<close> is \<open>+1\<close>.
\<close>

theorem Compare_lexicographic:
  fixes h :: "('a::linorder) heap"
  assumes "valid h s1" "valid h s2"
  shows "(\<forall>k. k < min (len s1) (len s2)
            \<and> (\<forall>m. m < k \<longrightarrow> contents h s1 ! m = contents h s2 ! m)
            \<and> contents h s1 ! k \<noteq> contents h s2 ! k
          \<longrightarrow> Compare h s1 s2 = Inr (if contents h s1 ! k < contents h s2 ! k then - 1 else 1))
     \<and> ((\<forall>m. m < min (len s1) (len s2) \<longrightarrow> contents h s1 ! m = contents h s2 ! m)
          \<longrightarrow> Compare h s1 s2 =
              Inr (if len s1 = len s2 then 0 else if len s1 < len s2 then - 1 else 1))
     \<and> (\<exists>r. Compare h s1 s2 = Inr r \<and> (r = - 1 \<or> r = 0 \<or> r = 1))
     \<and> Compare [[1, 2 :: int], [1, 2, 3]] \<lparr>base = 0, off = 0, len = 2, cap = 2\<rparr>
          \<lparr>base = 1, off = 0, len = 3, cap = 3\<rparr> = Inr (- 1)
     \<and> Compare [[1, 3 :: int], [1, 2, 3]] \<lparr>base = 0, off = 0, len = 2, cap = 2\<rparr>
          \<lparr>base = 1, off = 0, len = 3, cap = 3\<rparr> = Inr 1"
proof -
  let ?n = "min (len s1) (len s2)"
  let ?xs = "contents h s1" and ?ys = "contents h s2"
  have ml: "(if len s1 > len s2 then len s2 else len s1) = ?n" by (simp add: min_def)
  have c: "Compare h s1 s2 = Compare_loop h s1 s2 ?n 0"
    by (simp add: Compare_def Let_def ml)
  have differs: "Compare h s1 s2 = Inr (if ?xs ! k < ?ys ! k then - 1 else 1)"
    if "k < ?n" "\<forall>m. m < k \<longrightarrow> ?xs ! m = ?ys ! m" "?xs ! k \<noteq> ?ys ! k" for k
    unfolding c using that by (intro Compare_loop_differs assms) auto
  have agrees: "Compare h s1 s2 =
      Inr (if len s1 = len s2 then 0 else if len s1 < len s2 then - 1 else 1)"
    if "\<forall>m. m < ?n \<longrightarrow> ?xs ! m = ?ys ! m"
    unfolding c using that by (intro Compare_loop_agrees assms) auto
  have total: "\<exists>r. Compare h s1 s2 = Inr r \<and> (r = - 1 \<or> r = 0 \<or> r = 1)"
  proof (cases "\<forall>m. m < ?n \<longrightarrow> ?xs ! m = ?ys ! m")
    case True
    from agrees [OF True] show ?thesis by auto
  next
    case False
    then have ex: "\<exists>k. k < ?n \<and> ?xs ! k \<noteq> ?ys ! k" by blast
    define k where "k = (LEAST k. k < ?n \<and> ?xs ! k \<noteq> ?ys ! k)"
    have p: "k < ?n \<and> ?xs ! k \<noteq> ?ys ! k"
      unfolding k_def using ex by (rule LeastI_ex)
    have q: "\<forall>m. m < k \<longrightarrow> ?xs ! m = ?ys ! m"
    proof (intro allI impI)
      fix m assume mk: "m < k"
      then have "\<not> (m < ?n \<and> ?xs ! m \<noteq> ?ys ! m)"
        unfolding k_def by (rule not_less_Least)
      moreover have "m < ?n" using mk p by simp
      ultimately show "?xs ! m = ?ys ! m" by blast
    qed
    from differs [of k] p q show ?thesis by auto
  qed
  have e1: "Compare [[1, 2 :: int], [1, 2, 3]] \<lparr>base = 0, off = 0, len = 2, cap = 2\<rparr>
          \<lparr>base = 1, off = 0, len = 3, cap = 3\<rparr> = Inr (- 1)"
    by (simp add: Compare_def Compare_loop.simps index_def)
  have e2: "Compare [[1, 3 :: int], [1, 2, 3]] \<lparr>base = 0, off = 0, len = 2, cap = 2\<rparr>
          \<lparr>base = 1, off = 0, len = 3, cap = 3\<rparr> = Inr 1"
    by (simp add: Compare_def Compare_loop.simps index_def)
  show ?thesis
    using differs agrees total e1 e2 by blast
qed

theorem Compare_lexicographic_witness:
  "valid [[1, 3 :: int], [1, 2, 3]] \<lparr>base = 0, off = 0, len = 2, cap = 2\<rparr> \<and>
   valid [[1, 3 :: int], [1, 2, 3]] \<lparr>base = 1, off = 0, len = 3, cap = 3\<rparr> \<and>
   contents [[1, 3 :: int], [1, 2, 3]] \<lparr>base = 0, off = 0, len = 2, cap = 2\<rparr> ! 0 =
   contents [[1, 3 :: int], [1, 2, 3]] \<lparr>base = 1, off = 0, len = 3, cap = 3\<rparr> ! 0 \<and>
   contents [[1, 3 :: int], [1, 2, 3]] \<lparr>base = 0, off = 0, len = 2, cap = 2\<rparr> ! 1 \<noteq>
   contents [[1, 3 :: int], [1, 2, 3]] \<lparr>base = 1, off = 0, len = 3, cap = 3\<rparr> ! 1 \<and>
   Compare [[1, 3 :: int], [1, 2, 3]] \<lparr>base = 0, off = 0, len = 2, cap = 2\<rparr>
     \<lparr>base = 1, off = 0, len = 3, cap = 3\<rparr> = Inr 1"
proof -
  let ?h = "[[1, 3 :: int], [1, 2, 3]]"
  let ?s1 = "\<lparr>base = 0, off = 0, len = 2, cap = 2\<rparr>"
  let ?s2 = "\<lparr>base = 1, off = 0, len = 3, cap = 3\<rparr>"
  have v1: "valid ?h ?s1" and v2: "valid ?h ?s2" by (simp_all add: valid_def)
  have pre: "(1::nat) < min (len ?s1) (len ?s2)
      \<and> (\<forall>m. m < 1 \<longrightarrow> contents ?h ?s1 ! m = contents ?h ?s2 ! m)
      \<and> contents ?h ?s1 ! 1 \<noteq> contents ?h ?s2 ! 1"
    by (simp add: contents_def)
  from Compare_lexicographic [OF v1 v2] pre
  have "Compare ?h ?s1 ?s2 = Inr (if contents ?h ?s1 ! 1 < contents ?h ?s2 ! 1 then - 1 else 1)"
    by blast
  then show ?thesis using v1 v2 by (simp add: contents_def)
qed

section \<open>Compact and CompactFunc\<close>

lemma contents_assign:
  assumes "valid h s" "k < len s"
  shows "contents (h[base s := (h ! base s)[off s + k := x]]) s = (contents h s)[k := x]"
proof -
  have "base s < length h" using assms(1) by (simp add: valid_def)
  then show ?thesis
    by (simp add: contents_def take_update_swap drop_update_swap)
qed

lemma valid_assign:
  "valid h s \<Longrightarrow> valid (h[base s := (h ! base s)[k := x]]) s"
  by (simp add: valid_def)

lemma assign_in_range:
  "k < len s \<Longrightarrow> assign h s (int k) x = Inr (h[base s := (h ! base s)[off s + k := x]])"
  by (simp add: assign_def)

lemma length_kept: "length (kept cmp y xs) \<le> length xs"
  by (induction xs arbitrary: y) (auto simp add: le_SucI)

lemma subseq_kept: "subseq (kept cmp y xs) xs"
  by (induction xs arbitrary: y) auto

lemma kept_eq_remdups_adj: "x # kept (=) x xs = remdups_adj (x # xs)"
  by (induction xs arbitrary: x) auto

lemma compacted_eq_remdups_adj: "compacted (=) xs = remdups_adj xs"
  by (cases xs) (simp_all add: kept_eq_remdups_adj)

lemma length_compacted: "length (compacted cmp xs) \<le> length xs"
  by (cases xs) (simp_all add: length_kept)

lemma subseq_compacted: "subseq (compacted cmp xs) xs"
  by (cases xs) (simp_all add: subseq_kept)

text \<open>
  The invariant of the loop. With \<open>1 \<le> j \<le> i \<le> len s\<close>, the loop started at \<open>i\<close> and \<open>j\<close>
  returns normally; the first \<open>j\<close> elements are as before, followed by what is kept of
  the elements from \<open>i\<close> on, given that element \<open>j - 1\<close> was kept last.
\<close>

lemma CompactFunc_loop_result:
  assumes "valid h s" "1 \<le> j" "j \<le> i" "i \<le> len s"
  shows "\<exists>j' h'. CompactFunc_loop h s cmp i j = Inr (j', h')
     \<and> j' \<le> len s
     \<and> take j' (contents h' s) =
         take j (contents h s) @ kept cmp (contents h s ! (j - 1)) (drop i (contents h s))
     \<and> length h' = length h \<and> (\<forall>p. p \<noteq> base s \<longrightarrow> h' ! p = h ! p) \<and> valid h' s"
  using assms
proof (induction "len s - i" arbitrary: h i j)
  case 0
  then have i: "i = len s" by simp
  have lc: "length (contents h s) = len s" using "0.prems"(1) by (rule length_contents)
  have "\<not> i < len s" using i by simp
  then have "CompactFunc_loop h s cmp i j = Inr (j, h)"
    by (simp add: CompactFunc_loop.simps [of h s cmp i j])
  then show ?case using "0.prems" i lc by simp
next
  case (Suc d)
  let ?c = "contents h s"
  have lc: "length ?c = len s" using Suc.prems(1) by (rule length_contents)
  have il: "i < len s" using Suc.hyps(2) by simp
  have jl: "j - 1 < len s" "j < len s" using Suc.prems il by simp_all
  have j1: "int j - 1 = int (j - 1)" using Suc.prems(2) by simp
  have xi: "index h s (int i) = Inr (?c ! i)"
    using Suc.prems(1) il by (rule index_contents)
  have yj: "index h s (int j - 1) = Inr (?c ! (j - 1))"
    unfolding j1 using Suc.prems(1) jl(1) by (rule index_contents)
  have dr: "drop i ?c = ?c ! i # drop (i + 1) ?c"
    using il lc by (simp add: Cons_nth_drop_Suc)
  show ?case
  proof (cases "cmp (?c ! i) (?c ! (j - 1))")
    case True
    have step: "CompactFunc_loop h s cmp i j = CompactFunc_loop h s cmp (i + 1) j"
      using il xi yj True by (simp add: CompactFunc_loop.simps [of h s cmp i j])
    have "\<exists>j' h'. CompactFunc_loop h s cmp (i + 1) j = Inr (j', h')
       \<and> j' \<le> len s
       \<and> take j' (contents h' s) =
           take j ?c @ kept cmp (?c ! (j - 1)) (drop (i + 1) ?c)
       \<and> length h' = length h \<and> (\<forall>p. p \<noteq> base s \<longrightarrow> h' ! p = h ! p) \<and> valid h' s"
      using Suc.hyps(2) Suc.prems il by (intro Suc.hyps(1)) auto
    then show ?thesis unfolding step dr using True by simp
  next
    case False
    let ?h1 = "h[base s := (h ! base s)[off s + j := ?c ! i]]"
    have as: "assign h s (int j) (?c ! i) = Inr ?h1"
      using jl(2) by (rule assign_in_range)
    have step: "CompactFunc_loop h s cmp i j = CompactFunc_loop ?h1 s cmp (i + 1) (j + 1)"
      using il xi yj as False by (simp add: CompactFunc_loop.simps [of h s cmp i j])
    have v1: "valid ?h1 s" using Suc.prems(1) by (rule valid_assign)
    have c1: "contents ?h1 s = ?c[j := ?c ! i]"
      using Suc.prems(1) jl(2) by (rule contents_assign)
    have ih: "\<exists>j' h'. CompactFunc_loop ?h1 s cmp (i + 1) (j + 1) = Inr (j', h')
       \<and> j' \<le> len s
       \<and> take j' (contents h' s) =
           take (j + 1) (contents ?h1 s)
           @ kept cmp (contents ?h1 s ! (j + 1 - 1)) (drop (i + 1) (contents ?h1 s))
       \<and> length h' = length ?h1 \<and> (\<forall>p. p \<noteq> base s \<longrightarrow> h' ! p = ?h1 ! p) \<and> valid h' s"
      using Suc.hyps(2) Suc.prems il v1 by (intro Suc.hyps(1)) auto
    have t1: "take (j + 1) (?c[j := ?c ! i]) = take j ?c @ [?c ! i]"
      using jl(2) lc by (simp add: take_Suc_conv_app_nth)
    have t2: "(?c[j := ?c ! i]) ! j = ?c ! i" using jl(2) lc by simp
    have t3: "drop (i + 1) (?c[j := ?c ! i]) = drop (i + 1) ?c"
      using Suc.prems(3) by simp
    have other: "\<forall>p. p \<noteq> base s \<longrightarrow> ?h1 ! p = h ! p" by simp
    from ih show ?thesis
      unfolding step dr c1 using False t1 t2 t3 other by auto
  qed
qed

lemma Compact_loop_eq:
  fixes h :: "'a heap"
  shows "Compact_loop h s i j = CompactFunc_loop h s (=) i j"
proof (induction "len s - i" arbitrary: h i j)
  case 0
  then show ?case
    by (simp add: Compact_loop.simps [of h s i j] CompactFunc_loop.simps [of h s "(=)" i j])
next
  case (Suc d)
  have d: "d = len s - (i + 1)" using Suc.hyps(2) by simp
  have "Compact_loop h' s (i + 1) j' = CompactFunc_loop h' s (=) (i + 1) j'"
    for h' :: "'a heap" and j'
    by (rule Suc.hyps(1) [OF d])
  then show ?case
    by (simp add: Compact_loop.simps [of h s i j] CompactFunc_loop.simps [of h s "(=)" i j]
        cong: if_cong)
qed

lemma Compact_eq: "Compact h s = CompactFunc h s (=)"
  by (simp add: Compact_def CompactFunc_def Compact_loop_eq)

text \<open>
  The result of \<^verbatim>\<open>CompactFunc\<close>: a shorter view of the same array that shows the compacted
  elements; no array is allocated, and no other array changes.
\<close>

lemma CompactFunc_result:
  assumes "valid h s"
  shows "\<exists>r h'. CompactFunc h s cmp = Inr (r, h')
     \<and> r = s\<lparr>len := length (compacted cmp (contents h s))\<rparr>
     \<and> contents h' r = compacted cmp (contents h s)
     \<and> length h' = length h \<and> (\<forall>p. p \<noteq> base s \<longrightarrow> h' ! p = h ! p) \<and> valid h' r
     \<and> (len s \<le> 1 \<longrightarrow> r = s \<and> h' = h)"
proof (cases "len s = 0 \<or> len s = 1")
  case True
  let ?c = "contents h s"
  have lc: "length ?c = len s" using assms by (rule length_contents)
  have "compacted cmp ?c = ?c"
  proof (cases ?c)
    case Nil
    then show ?thesis by simp
  next
    case (Cons x xs)
    then have "xs = []" using lc True by auto
    with Cons show ?thesis by simp
  qed
  moreover have "CompactFunc h s cmp = Inr (s, h)"
    using True by (simp add: CompactFunc_def)
  ultimately show ?thesis using assms lc by simp
next
  case False
  let ?c = "contents h s"
  have lc: "length ?c = len s" using assms by (rule length_contents)
  have l2: "1 \<le> len s" "\<not> len s \<le> 1" using False by simp_all
  obtain j' h' where loop: "CompactFunc_loop h s cmp 1 1 = Inr (j', h')"
    and j': "j' \<le> len s"
    and tk: "take j' (contents h' s) = take 1 ?c @ kept cmp (?c ! (1 - 1)) (drop 1 ?c)"
    and lh: "length h' = length h" and oth: "\<forall>p. p \<noteq> base s \<longrightarrow> h' ! p = h ! p"
    and v': "valid h' s"
    using CompactFunc_loop_result [OF assms, of 1 1 cmp] l2(1) by auto
  obtain x xs where cx: "?c = x # xs" using lc l2(1) by (cases ?c) auto
  have cc: "take j' (contents h' s) = compacted cmp ?c"
    using tk by (simp add: cx)
  have "length (take j' (contents h' s)) = j'"
    using j' length_contents [OF v'] by simp
  then have jc: "j' = length (compacted cmp ?c)" using cc by simp
  have cap: "int j' \<le> int (cap s)" using j' assms by (simp add: valid_def)
  have res: "CompactFunc h s cmp = Inr (s\<lparr>len := j'\<rparr>, h')"
    using False loop cap by (simp add: CompactFunc_def slice_to_ok)
  have vr: "valid h' (s\<lparr>len := j'\<rparr>)" using v' j' by (simp add: valid_def)
  have cr: "contents h' (s\<lparr>len := j'\<rparr>) = compacted cmp ?c"
    using cc j' by (simp add: contents_shorter)
  show ?thesis
    unfolding res using jc cr lh oth vr l2(2) by simp
qed

text \<open>
  C6. \<^verbatim>\<open>Compact\<close> collapses every run of consecutive equal elements to one element, in
  place. The view it returns shows the elements of \<open>s\<close> with adjacent duplicates removed
  (\<^const>\<open>remdups_adj\<close>): no two neighbours are equal, and the elements are a subsequence
  of those of \<open>s\<close>, in their order. The view is on the array of \<open>s\<close>, from the same start and
  with the same capacity; no array is allocated and no other array changes. A slice of
  length 0 or 1 is returned as it is, with the heap unchanged.
  \<^verbatim>\<open>Compact([1,1,2,2,2,3,1])\<close> is \<open>[1,2,3,1]\<close>: the last 1 stays.
\<close>

theorem Compact_collapses_runs:
  assumes "valid h s"
  shows "\<exists>r h'. Compact h s = Inr (r, h')
     \<and> contents h' r = remdups_adj (contents h s)
     \<and> (\<forall>k. Suc k < len r \<longrightarrow> contents h' r ! k \<noteq> contents h' r ! Suc k)
     \<and> subseq (contents h' r) (contents h s)
     \<and> base r = base s \<and> off r = off s \<and> cap r = cap s \<and> valid h' r
     \<and> length h' = length h \<and> (\<forall>p. p \<noteq> base s \<longrightarrow> h' ! p = h ! p)
     \<and> (len s \<le> 1 \<longrightarrow> r = s \<and> h' = h)
     \<and> Compact [[1, 1, 2, 2, 2, 3, 1 :: int]] \<lparr>base = 0, off = 0, len = 7, cap = 7\<rparr> =
         Inr (\<lparr>base = 0, off = 0, len = 4, cap = 7\<rparr>, [[1, 2, 3, 1, 2, 3, 1]])
     \<and> contents [[1, 2, 3, 1, 2, 3, 1 :: int]] \<lparr>base = 0, off = 0, len = 4, cap = 7\<rparr> =
         [1, 2, 3, 1]"
proof -
  let ?c = "contents h s"
  obtain r h' where res: "Compact h s = Inr (r, h')"
    and r: "r = s\<lparr>len := length (compacted (=) ?c)\<rparr>"
    and cr: "contents h' r = compacted (=) ?c"
    and lh: "length h' = length h" and oth: "\<forall>p. p \<noteq> base s \<longrightarrow> h' ! p = h ! p"
    and vr: "valid h' r" and small: "len s \<le> 1 \<longrightarrow> r = s \<and> h' = h"
    using CompactFunc_result [OF assms, of "(=)"] unfolding Compact_eq by blast
  have c1: "contents h' r = remdups_adj ?c"
    using cr by (simp add: compacted_eq_remdups_adj)
  have lr: "length (contents h' r) = len r" using vr by (rule length_contents)
  have "distinct_adj (contents h' r)" unfolding c1 by simp
  then have c2: "\<forall>k. Suc k < len r \<longrightarrow> contents h' r ! k \<noteq> contents h' r ! Suc k"
    using lr by (simp add: distinct_adj_conv_nth)
  have c3: "subseq (contents h' r) ?c"
    unfolding cr by (rule subseq_compacted)
  have same: "base r = base s \<and> off r = off s \<and> cap r = cap s" using r by simp
  have e1: "Compact [[1, 1, 2, 2, 2, 3, 1 :: int]] \<lparr>base = 0, off = 0, len = 7, cap = 7\<rparr> =
         Inr (\<lparr>base = 0, off = 0, len = 4, cap = 7\<rparr>, [[1, 2, 3, 1, 2, 3, 1]])"
    by (simp add: Compact_def Compact_loop.simps index_def assign_def slice_to_def
        slice_expr_def)
  have e2: "contents [[1, 2, 3, 1, 2, 3, 1 :: int]] \<lparr>base = 0, off = 0, len = 4, cap = 7\<rparr> =
         [1, 2, 3, 1]"
    by (simp add: contents_def)
  show ?thesis
    using res c1 c2 c3 same vr lh oth small e1 e2 by blast
qed

theorem Compact_collapses_runs_witness:
  "valid [[1, 1, 2, 2, 2, 3, 1 :: int]] \<lparr>base = 0, off = 0, len = 7, cap = 7\<rparr> \<and>
   (\<exists>r h'. Compact [[1, 1, 2, 2, 2, 3, 1 :: int]] \<lparr>base = 0, off = 0, len = 7, cap = 7\<rparr> =
        Inr (r, h') \<and> contents h' r = [1, 2, 3, 1])"
proof -
  let ?h = "[[1, 1, 2, 2, 2, 3, 1 :: int]]" and ?s = "\<lparr>base = 0, off = 0, len = 7, cap = 7\<rparr>"
  have v: "valid ?h ?s" by (simp add: valid_def)
  have c: "remdups_adj (contents ?h ?s) = [1, 2, 3, 1]" by (simp add: contents_def)
  from Compact_collapses_runs [OF v] obtain r h' where
    "Compact ?h ?s = Inr (r, h')" "contents h' r = remdups_adj (contents ?h ?s)"
    by blast
  then have "\<exists>r h'. Compact ?h ?s = Inr (r, h') \<and> contents h' r = [1, 2, 3, 1]"
    unfolding c by blast
  then show ?thesis using v by simp
qed

text \<open>
  C10. On every slice \<^verbatim>\<open>Compact\<close> and \<^verbatim>\<open>CompactFunc\<close> (with any function \<open>eq\<close>) return
  normally, with a result no longer than the slice. On a slice that is not empty the result
  is not empty and its first element is the first element of the slice.
\<close>

theorem Compact_keeps_first:
  assumes "valid h s"
  shows "\<exists>r h' r2 h2. Compact h s = Inr (r, h') \<and> CompactFunc h s eq = Inr (r2, h2)
     \<and> len r \<le> len s \<and> len r2 \<le> len s
     \<and> (0 < len s \<longrightarrow>
          0 < len r \<and> contents h' r ! 0 = contents h s ! 0 \<and>
          0 < len r2 \<and> contents h2 r2 ! 0 = contents h s ! 0)"
proof -
  let ?c = "contents h s"
  have lc: "length ?c = len s" using assms by (rule length_contents)
  have first: "0 < len s \<longrightarrow> compacted cmp ?c \<noteq> [] \<and> compacted cmp ?c ! 0 = ?c ! 0" for cmp
    using lc by (cases ?c) auto
  have part: "\<exists>r h'. CompactFunc h s cmp = Inr (r, h') \<and> len r \<le> len s
      \<and> (0 < len s \<longrightarrow> 0 < len r \<and> contents h' r ! 0 = ?c ! 0)" for cmp
  proof -
    obtain r h' where res: "CompactFunc h s cmp = Inr (r, h')"
      and r: "r = s\<lparr>len := length (compacted cmp ?c)\<rparr>"
      and cr: "contents h' r = compacted cmp ?c"
      using CompactFunc_result [OF assms, of cmp] by blast
    have "len r \<le> len s" using r length_compacted [of cmp ?c] lc by simp
    moreover have "0 < len s \<longrightarrow> 0 < len r \<and> contents h' r ! 0 = ?c ! 0"
      using first [of cmp] r cr by simp
    ultimately show ?thesis using res by auto
  qed
  from part [of "(=)"] part [of eq] show ?thesis
    unfolding Compact_eq by (elim exE conjE) simp
qed

theorem Compact_keeps_first_witness:
  "valid [[2, 2, 1 :: int]] \<lparr>base = 0, off = 0, len = 3, cap = 3\<rparr> \<and>
   0 < len \<lparr>base = 0, off = 0, len = 3, cap = 3\<rparr> \<and>
   (\<exists>r h' r2 h2.
      Compact [[2, 2, 1 :: int]] \<lparr>base = 0, off = 0, len = 3, cap = 3\<rparr> = Inr (r, h') \<and>
      CompactFunc [[2, 2, 1 :: int]] \<lparr>base = 0, off = 0, len = 3, cap = 3\<rparr> (\<lambda>a b. a < b) =
        Inr (r2, h2) \<and>
      0 < len r \<and> len r \<le> 3 \<and> contents h' r ! 0 = 2 \<and>
      0 < len r2 \<and> len r2 \<le> 3 \<and> contents h2 r2 ! 0 = 2)"
proof -
  let ?h = "[[2, 2, 1 :: int]]" and ?s = "\<lparr>base = 0, off = 0, len = 3, cap = 3\<rparr>"
  have v: "valid ?h ?s" by (simp add: valid_def)
  have p: "0 < len ?s" by simp
  have c: "contents ?h ?s ! 0 = 2" by (simp add: contents_def)
  from Compact_keeps_first [OF v, of "\<lambda>a b. a < b"] p
  have "\<exists>r h' r2 h2.
      Compact ?h ?s = Inr (r, h') \<and> CompactFunc ?h ?s (\<lambda>a b. a < b) = Inr (r2, h2) \<and>
      0 < len r \<and> len r \<le> 3 \<and> contents h' r ! 0 = contents ?h ?s ! 0 \<and>
      0 < len r2 \<and> len r2 \<le> 3 \<and> contents h2 r2 ! 0 = contents ?h ?s ! 0"
    by auto
  then show ?thesis unfolding c using v p by blast
qed

section \<open>Insert, with its two build errors repaired\<close>

text \<open>
  The first branch: the capacity suffices, and the elements are moved inside the array of
  \<open>s\<close>. The values must not lie in the cells into which \<open>s[i:]\<close> is moved first, and the sum
  of the two lengths must be an \<^verbatim>\<open>int\<close>.
\<close>

lemma Insert_in_place:
  assumes "valid h s" "valid h vs" "k \<le> len s" "len s + len vs \<le> cap s"
    and "base vs = base s \<Longrightarrow>
         cells vs \<inter> {off s + k + len vs ..< off s + len s + len vs} = {}"
    and nw: "int (len s) + int (len vs) < 2 ^ 63"
  shows "\<exists>h'. Insert_repaired lim z h s (int k) vs = Inr (s\<lparr>len := len s + len vs\<rparr>, h')
     \<and> valid h' (s\<lparr>len := len s + len vs\<rparr>)
     \<and> contents h' (s\<lparr>len := len s + len vs\<rparr>) =
         take k (contents h s) @ contents h vs @ drop k (contents h s)
     \<and> length h' = length h \<and> (\<forall>p. p \<noteq> base s \<longrightarrow> h' ! p = h ! p)"
proof -
  let ?n = "len s + len vs"
  let ?s2 = "s\<lparr>len := ?n\<rparr>"
  let ?c = "contents h s" and ?V = "contents h vs"
  let ?e = "contents h ?s2"
  let ?d1 = "\<lparr>base = base s, off = off s + (k + len vs), len = ?n - (k + len vs),
              cap = cap s - (k + len vs)\<rparr>"
  let ?src = "\<lparr>base = base s, off = off s + k, len = len s - k, cap = cap s - k\<rparr>"
  let ?d2 = "\<lparr>base = base s, off = off s + k, len = ?n - k, cap = cap s - k\<rparr>"
  let ?h1 = "store h ?d1 (drop k ?c)"
  let ?h2 = "store ?h1 ?d2 ?V"
  have b: "base s < length h" and o: "off s + cap s \<le> length (h ! base s)"
    using assms(1) by (simp_all add: valid_def)
  have lc: "length ?c = len s" using assms(1) by (rule length_contents)
  have lV: "length ?V = len vs" using assms(2) by (rule length_contents)
  have v2: "valid h ?s2" using assms(1,4) by (simp add: valid_def)
  have le: "length ?e = ?n" using length_contents [OF v2] by simp
  have ce: "take (len s) ?e = ?c"
    using contents_shorter [of "len s" ?s2 h] by simp
  \<comment> \<open>the two sums do not wrap around\<close>
  have w1: "wrap64 (int (len s) + int (len vs)) = int (len s) + int (len vs)"
    using nw by (intro wrap64_id) auto
  have w2: "wrap64 (int k + int (len vs)) = int k + int (len vs)"
    using nw assms(3) by (intro wrap64_id) auto
  \<comment> \<open>the slice expressions\<close>
  have st: "slice_to s (int (len s) + int (len vs)) = Inr ?s2"
    using assms(4) slice_to_ok [of "int ?n" s] by simp
  have e1: "slice_from ?s2 (int k + int (len vs)) = Inr ?d1"
    using assms(3,4) slice_from_ok [of "int (k + len vs)" ?s2] by (simp add: nat_add_distrib)
  have e2: "slice_from s (int k) = Inr ?src"
    using assms(1,3) slice_from_ok [of "int k" s] by (simp add: valid_def)
  have e3: "slice_from ?s2 (int k) = Inr ?d2"
    using assms(3,4) slice_from_ok [of "int k" ?s2] by simp
  \<comment> \<open>the first copy moves \<open>s[i:]\<close> to the end\<close>
  have vsrc: "valid h ?src" using assms(1,3) by (rule valid_slice_from)
  have "len ?src \<le> len ?d1" using assms(3) by simp
  then have "copy h ?d1 ?src = (len ?src, store h ?d1 (contents h ?src))"
    using vsrc by (rule copy_result)
  then have cp1: "copy h ?d1 ?src = (len s - k, ?h1)"
    by (simp add: contents_slice_from)
  have fit1: "off ?d1 + length (drop k ?c) \<le> length (h ! base ?d1)"
    using assms(3,4) o lc by simp
  have val1: "valid ?h1 u = valid h u" for u
    using valid_store [of ?d1 h "drop k ?c" u] b fit1 by simp
  have "contents ?h1 vs = ?V"
  proof (rule contents_store_disjoint [OF assms(2) _ fit1])
    show "base ?d1 < length h" using b by simp
    assume "base vs = base ?d1"
    then have "cells vs \<inter> {off s + k + len vs ..< off s + len s + len vs} = {}"
      using assms(5) by simp
    moreover have "{off ?d1 ..< off ?d1 + length (drop k ?c)} =
        {off s + k + len vs ..< off s + len s + len vs}"
      using assms(3) lc by auto
    ultimately show "cells vs \<inter> {off ?d1 ..< off ?d1 + length (drop k ?c)} = {}"
      by (simp only:)
  qed
  then have V1: "contents ?h1 vs = ?V" .
  have c1: "contents ?h1 ?s2 = take (k + len vs) ?e @ drop k ?c"
  proof -
    have "contents ?h1 ?s2 =
        take (k + len vs) ?e @ drop k ?c @ drop (k + len vs + length (drop k ?c)) ?e"
      using assms(3) lc by (intro contents_store_within [OF v2]) simp_all
    moreover have "drop (k + len vs + length (drop k ?c)) ?e = []"
      using assms(3) lc le by simp
    ultimately show ?thesis by simp
  qed
  \<comment> \<open>the second copy writes the values\<close>
  have vvs1: "valid ?h1 vs" using assms(2) val1 by simp
  have "len vs \<le> len ?d2" using assms(3) by simp
  then have "copy ?h1 ?d2 vs = (len vs, store ?h1 ?d2 (contents ?h1 vs))"
    using vvs1 by (rule copy_result)
  then have cp2: "copy ?h1 ?d2 vs = (len vs, ?h2)" by (simp only: V1)
  have res: "Insert_repaired lim z h s (int k) vs = Inr (?s2, ?h2)"
    unfolding Insert_repaired_def w1 w2 Let_def
    using assms(4) st e1 e2 e3 cp1 cp2 by simp
  have v21: "valid ?h1 ?s2" using v2 val1 by simp
  have l1: "length (?h1 ! base s) = length (h ! base s)"
    using store_same [of ?d1 h "drop k ?c"] b fit1 by (simp add: length_overwrite)
  have fit2: "off ?d2 + length ?V \<le> length (?h1 ! base ?d2)"
    using assms(3,4) o lV l1 by simp
  have v22: "valid ?h2 ?s2"
    using valid_store [of ?d2 ?h1 ?V ?s2] b fit2 v21 by simp
  have c2: "contents ?h2 ?s2 = take k ?c @ ?V @ drop k ?c"
  proof -
    have "contents ?h2 ?s2 =
        take k (contents ?h1 ?s2) @ ?V @ drop (k + length ?V) (contents ?h1 ?s2)"
      using assms(3) lV by (intro contents_store_within [OF v21]) simp_all
    moreover have "take k (contents ?h1 ?s2) = take k ?c"
    proof -
      have "take k (contents ?h1 ?s2) = take k ?e" unfolding c1 using le assms(3) by simp
      also have "\<dots> = take k (take (len s) ?e)" using assms(3) by (simp add: min_def)
      finally show ?thesis unfolding ce .
    qed
    moreover have "drop (k + length ?V) (contents ?h1 ?s2) = drop k ?c"
      unfolding c1 using le lV assms(3) by simp
    ultimately show ?thesis by simp
  qed
  have fr: "\<forall>p. p \<noteq> base s \<longrightarrow> ?h2 ! p = h ! p"
    by (simp add: store_other)
  show ?thesis using res v22 c2 fr by simp
qed

text \<open>The second branch: a new array, filled with the three segments.\<close>

lemma Insert_fresh:
  assumes "valid h s" "valid h vs" "k \<le> len s" "cap s < len s + len vs"
    and nw: "int (len s) + int (len vs) < 2 ^ 63" and al: "len s + len vs \<le> lim"
  shows "\<exists>h'. Insert_repaired lim z h s (int k) vs =
         Inr (\<lparr>base = length h, off = 0, len = len s + len vs, cap = len s + len vs\<rparr>, h')
     \<and> valid h' \<lparr>base = length h, off = 0, len = len s + len vs, cap = len s + len vs\<rparr>
     \<and> contents h' \<lparr>base = length h, off = 0, len = len s + len vs, cap = len s + len vs\<rparr> =
         take k (contents h s) @ contents h vs @ drop k (contents h s)
     \<and> length h' = length h + 1 \<and> (\<forall>p. p < length h \<longrightarrow> h' ! p = h ! p)"
proof -
  let ?n = "len s + len vs"
  let ?s2 = "\<lparr>base = length h, off = 0, len = ?n, cap = ?n\<rparr>"
  let ?c = "contents h s" and ?V = "contents h vs"
  let ?h0 = "h @ [replicate ?n z]"
  let ?p = "s\<lparr>len := k\<rparr>"
  let ?d2 = "\<lparr>base = length h, off = k, len = ?n - k, cap = ?n - k\<rparr>"
  let ?d3 = "\<lparr>base = length h, off = k + len vs, len = ?n - (k + len vs),
              cap = ?n - (k + len vs)\<rparr>"
  let ?src = "\<lparr>base = base s, off = off s + k, len = len s - k, cap = cap s - k\<rparr>"
  let ?h1 = "store ?h0 ?s2 (take k ?c)"
  let ?h2 = "store ?h1 ?d2 ?V"
  let ?h3 = "store ?h2 ?d3 (drop k ?c)"
  have b: "base s < length h" and bv: "base vs < length h" and c: "len s \<le> cap s"
    using assms(1,2) by (simp_all add: valid_def)
  have lc: "length ?c = len s" using assms(1) by (rule length_contents)
  have lV: "length ?V = len vs" using assms(2) by (rule length_contents)
  \<comment> \<open>the two sums do not wrap around\<close>
  have w1: "wrap64 (int (len s) + int (len vs)) = int (len s) + int (len vs)"
    using nw by (intro wrap64_id) auto
  have w2: "wrap64 (int k + int (len vs)) = int k + int (len vs)"
    using nw assms(3) by (intro wrap64_id) auto
  \<comment> \<open>allocation and slice expressions\<close>
  have mk: "make lim z h (int (len s) + int (len vs)) (int (len s) + int (len vs)) =
      Inr (?s2, ?h0)"
    using al make_ok [of "int ?n" "int ?n" lim z h] by simp
  have e1: "slice_to s (int k) = Inr ?p"
    using assms(3) c slice_to_ok [of "int k" s] by simp
  have e2: "slice_from ?s2 (int k) = Inr ?d2"
    using assms(3) slice_from_ok [of "int k" ?s2] by simp
  have e3: "slice_from ?s2 (int k + int (len vs)) = Inr ?d3"
    using assms(3) slice_from_ok [of "int (k + len vs)" ?s2] by (simp add: nat_add_distrib)
  have e4: "slice_from s (int k) = Inr ?src"
    using assms(3) c slice_from_ok [of "int k" s] by simp
  \<comment> \<open>the views of the old arrays, in the grown heap\<close>
  have v0: "valid ?h0 ?s2" by (simp add: valid_def)
  have c0: "contents ?h0 ?s2 = replicate ?n z" by (simp add: contents_def)
  have vp: "valid h ?p" using assms(1,3) by (simp add: valid_def)
  have vp0: "valid ?h0 ?p" using vp by (rule valid_grown_heap)
  have cp0: "contents ?h0 ?p = take k ?c"
    using contents_grown_heap [OF vp] assms(3) by (simp add: contents_shorter)
  have vv0: "valid ?h0 vs" using assms(2) by (rule valid_grown_heap)
  have cv0: "contents ?h0 vs = ?V" using assms(2) by (rule contents_grown_heap)
  have vsrc: "valid h ?src" using assms(1,3) by (rule valid_slice_from)
  have vsrc0: "valid ?h0 ?src" using vsrc by (rule valid_grown_heap)
  have csrc0: "contents ?h0 ?src = drop k ?c"
    using contents_grown_heap [OF vsrc] by (simp add: contents_slice_from)
  \<comment> \<open>first copy: \<open>s[:i]\<close>\<close>
  have "len ?p \<le> len ?s2" using assms(3) by simp
  then have "copy ?h0 ?s2 ?p = (len ?p, store ?h0 ?s2 (contents ?h0 ?p))"
    using vp0 by (rule copy_result)
  then have k1: "copy ?h0 ?s2 ?p = (k, ?h1)" by (simp only: cp0) simp
  have fit1: "off ?s2 + length (take k ?c) \<le> length (?h0 ! base ?s2)"
    using assms(3) lc by simp
  have b1: "base ?s2 < length ?h0" by simp
  have val1: "valid ?h1 u = valid ?h0 u" for u
    using valid_store [OF b1 fit1] by simp
  have apart1: "contents ?h1 u = contents ?h0 u" if "valid ?h0 u" "base u < length h" for u
    using that b1 fit1 by (intro contents_store_apart) auto
  have c1: "contents ?h1 ?s2 = take k ?c @ drop k (replicate ?n z)"
  proof -
    have "contents ?h1 ?s2 =
        take 0 (contents ?h0 ?s2) @ take k ?c @ drop (0 + length (take k ?c)) (contents ?h0 ?s2)"
      using assms(3) lc by (intro contents_store_within [OF v0]) simp_all
    then show ?thesis using assms(3) lc by (simp add: c0)
  qed
  have la1: "length (?h1 ! length h) = ?n"
    using store_same [OF b1, of "take k ?c"] fit1 by (simp add: length_overwrite)
  \<comment> \<open>second copy: the values\<close>
  have vv1: "valid ?h1 vs" using vv0 val1 by simp
  have cv1: "contents ?h1 vs = ?V" using apart1 [OF vv0 bv] cv0 by simp
  have "len vs \<le> len ?d2" using assms(3) by simp
  then have "copy ?h1 ?d2 vs = (len vs, store ?h1 ?d2 (contents ?h1 vs))"
    using vv1 by (rule copy_result)
  then have k2: "copy ?h1 ?d2 vs = (len vs, ?h2)" by (simp only: cv1)
  have b2: "base ?d2 < length ?h1" by simp
  have fit2: "off ?d2 + length ?V \<le> length (?h1 ! base ?d2)"
    using assms(3) lV la1 by simp
  have val2: "valid ?h2 u = valid ?h1 u" for u
    using valid_store [OF b2 fit2] by simp
  have apart2: "contents ?h2 u = contents ?h1 u" if "valid ?h1 u" "base u < length h" for u
    using that b2 fit2 by (intro contents_store_apart) auto
  have v1: "valid ?h1 ?s2" using v0 val1 by simp
  have c2: "contents ?h2 ?s2 = take k ?c @ ?V @ drop (k + len vs) (replicate ?n z)"
  proof -
    have "contents ?h2 ?s2 =
        take k (contents ?h1 ?s2) @ ?V @ drop (k + length ?V) (contents ?h1 ?s2)"
      using assms(3) lV by (intro contents_store_within [OF v1]) simp_all
    then show ?thesis unfolding c1 using assms(3) lc lV by simp
  qed
  have la2: "length (?h2 ! length h) = ?n"
    using store_same [OF b2, of ?V] fit2 la1 by (simp add: length_overwrite)
  \<comment> \<open>third copy: \<open>s[i:]\<close>\<close>
  have vsrc2: "valid ?h2 ?src" using vsrc0 val1 val2 by simp
  have csrc2: "contents ?h2 ?src = drop k ?c"
  proof -
    have "valid ?h1 ?src" using vsrc0 val1 by simp
    then have "contents ?h2 ?src = contents ?h1 ?src" using b by (intro apart2) simp_all
    also have "\<dots> = contents ?h0 ?src" using vsrc0 b by (intro apart1) simp_all
    finally show ?thesis by (simp add: csrc0)
  qed
  have "len ?src \<le> len ?d3" using assms(3) by simp
  then have "copy ?h2 ?d3 ?src = (len ?src, store ?h2 ?d3 (contents ?h2 ?src))"
    using vsrc2 by (rule copy_result)
  then have k3: "copy ?h2 ?d3 ?src = (len s - k, ?h3)" by (simp only: csrc2) simp
  have res: "Insert_repaired lim z h s (int k) vs = Inr (?s2, ?h3)"
    unfolding Insert_repaired_def w1 w2 Let_def
    using assms(4) mk e1 e2 e3 e4 k1 k2 k3 by simp
  have b3: "base ?d3 < length ?h2" by simp
  have fit3: "off ?d3 + length (drop k ?c) \<le> length (?h2 ! base ?d3)"
    using assms(3) lc la2 by simp
  have v2: "valid ?h2 ?s2" using v1 val2 by simp
  have v3: "valid ?h3 ?s2" using valid_store [OF b3 fit3] v2 by simp
  have c3: "contents ?h3 ?s2 = take k ?c @ ?V @ drop k ?c"
  proof -
    have "contents ?h3 ?s2 =
        take (k + len vs) (contents ?h2 ?s2) @ drop k ?c
        @ drop (k + len vs + length (drop k ?c)) (contents ?h2 ?s2)"
      using assms(3) lc by (intro contents_store_within [OF v2]) simp_all
    then show ?thesis unfolding c2 using assms(3) lc lV by simp
  qed
  have fr: "\<forall>p. p < length h \<longrightarrow> ?h3 ! p = h ! p"
    by (simp add: store_other nth_append)
  show ?thesis using res v3 c3 fr by simp
qed

text \<open>Both branches together.\<close>

lemma Insert_result:
  assumes "valid h s" "valid h vs" "k \<le> len s"
    and "len s + len vs \<le> cap s \<Longrightarrow> base vs = base s \<Longrightarrow>
         cells vs \<inter> {off s + k + len vs ..< off s + len s + len vs} = {}"
    and nw: "int (len s) + int (len vs) < 2 ^ 63"
    and al: "cap s < len s + len vs \<Longrightarrow> len s + len vs \<le> lim"
  shows "\<exists>r h'. Insert_repaired lim z h s (int k) vs = Inr (r, h')
     \<and> valid h' r \<and> len r = len s + len vs
     \<and> contents h' r = take k (contents h s) @ contents h vs @ drop k (contents h s)
     \<and> length h \<le> length h' \<and> (\<forall>p. p < length h \<and> p \<noteq> base s \<longrightarrow> h' ! p = h ! p)
     \<and> (base r = base s \<or> base r = length h)"
proof (cases "len s + len vs \<le> cap s")
  case True
  have "\<exists>h'. Insert_repaired lim z h s (int k) vs = Inr (s\<lparr>len := len s + len vs\<rparr>, h')
     \<and> valid h' (s\<lparr>len := len s + len vs\<rparr>)
     \<and> contents h' (s\<lparr>len := len s + len vs\<rparr>) =
         take k (contents h s) @ contents h vs @ drop k (contents h s)
     \<and> length h' = length h \<and> (\<forall>p. p \<noteq> base s \<longrightarrow> h' ! p = h ! p)"
    by (rule Insert_in_place [OF assms(1-3) True _ nw]) (rule assms(4) [OF True])
  then show ?thesis by (elim exE conjE) simp
next
  case False
  then have c: "cap s < len s + len vs" by simp
  from Insert_fresh [OF assms(1-3) c nw al [OF c], of z]
  show ?thesis by (elim exE conjE) simp
qed

text \<open>Values that are written out in the call are in a new array, apart from all others.\<close>

lemma variadic_result:
  assumes "valid h s"
  shows "variadic h xs = (\<lparr>base = length h, off = 0, len = length xs, cap = length xs\<rparr>, h @ [xs])"
    and "valid (h @ [xs]) \<lparr>base = length h, off = 0, len = length xs, cap = length xs\<rparr>"
    and "contents (h @ [xs]) \<lparr>base = length h, off = 0, len = length xs, cap = length xs\<rparr> = xs"
    and "valid (h @ [xs]) s" and "contents (h @ [xs]) s = contents h s"
    and "base s \<noteq> length h"
  using assms
  by (simp_all add: variadic_def valid_def contents_def nth_append)

text \<open>
  C2. The claim: for \<open>0 \<le> i \<le> len s\<close>, \<^verbatim>\<open>Insert(s, i, vs...)\<close> returns \<open>s[0:i]\<close>, then the
  values, then \<open>s[i:]\<close>. The code does not do this, for two reasons. As shipped, \<^verbatim>\<open>Insert\<close>
  does not build (see \<open>Insert_repaired\<close> above), so no call returns anything. And with the
  two names repaired, the first branch moves \<open>s[i:]\<close> up inside the array of \<open>s\<close> before it
  reads the values, so a value that lies in a cell written by the move is lost, while the
  second branch, which fills a new array, keeps it. On the array \<open>[1, 2, 3, 0]\<close>, with \<open>s\<close>
  its first three elements (capacity 4) and the values \<^verbatim>\<open>s[2:3]\<close>, that is \<open>[3]\<close>,
  \<^verbatim>\<open>Insert(s, 0, s[2:3]...)\<close> returns \<open>[2, 1, 2, 3]\<close>: index 0 does not hold the first value,
  against the comment of the function. The same call on the same elements with capacity 3
  takes the second branch and returns \<open>[3, 1, 2, 3]\<close>. The limit \<open>2 ^ 45\<close> is that of 8-byte
  elements on a 64-bit platform.
\<close>

theorem Insert_aliased_values_lost:
  "valid [[1, 2, 3, 0 :: int]] \<lparr>base = 0, off = 0, len = 3, cap = 4\<rparr>
   \<and> valid [[1, 2, 3, 0 :: int]] \<lparr>base = 0, off = 2, len = 1, cap = 2\<rparr>
   \<and> contents [[1, 2, 3, 0 :: int]] \<lparr>base = 0, off = 0, len = 3, cap = 4\<rparr> = [1, 2, 3]
   \<and> contents [[1, 2, 3, 0 :: int]] \<lparr>base = 0, off = 2, len = 1, cap = 2\<rparr> = [3]
   \<and> Insert_repaired (2 ^ 45) 0 [[1, 2, 3, 0 :: int]] \<lparr>base = 0, off = 0, len = 3, cap = 4\<rparr> 0
         \<lparr>base = 0, off = 2, len = 1, cap = 2\<rparr> =
       Inr (\<lparr>base = 0, off = 0, len = 4, cap = 4\<rparr>, [[2, 1, 2, 3]])
   \<and> contents [[2, 1, 2, 3 :: int]] \<lparr>base = 0, off = 0, len = 4, cap = 4\<rparr> = [2, 1, 2, 3]
   \<and> Insert_repaired (2 ^ 45) 0 [[1, 2, 3 :: int]] \<lparr>base = 0, off = 0, len = 3, cap = 3\<rparr> 0
         \<lparr>base = 0, off = 2, len = 1, cap = 1\<rparr> =
       Inr (\<lparr>base = 1, off = 0, len = 4, cap = 4\<rparr>, [[1, 2, 3], [3, 1, 2, 3]])
   \<and> contents [[1, 2, 3], [3, 1, 2, 3 :: int]] \<lparr>base = 1, off = 0, len = 4, cap = 4\<rparr> =
       [3, 1, 2, 3]"
proof -
  have a: "valid [[1, 2, 3, 0 :: int]] \<lparr>base = 0, off = 0, len = 3, cap = 4\<rparr>"
    "valid [[1, 2, 3, 0 :: int]] \<lparr>base = 0, off = 2, len = 1, cap = 2\<rparr>"
    by (simp_all add: valid_def)
  have b: "contents [[1, 2, 3, 0 :: int]] \<lparr>base = 0, off = 0, len = 3, cap = 4\<rparr> = [1, 2, 3]"
    "contents [[1, 2, 3, 0 :: int]] \<lparr>base = 0, off = 2, len = 1, cap = 2\<rparr> = [3]"
    "contents [[2, 1, 2, 3 :: int]] \<lparr>base = 0, off = 0, len = 4, cap = 4\<rparr> = [2, 1, 2, 3]"
    "contents [[1, 2, 3], [3, 1, 2, 3 :: int]] \<lparr>base = 1, off = 0, len = 4, cap = 4\<rparr> =
       [3, 1, 2, 3]"
    by (simp_all add: contents_def)
  have c: "Insert_repaired (2 ^ 45) 0 [[1, 2, 3, 0 :: int]]
         \<lparr>base = 0, off = 0, len = 3, cap = 4\<rparr> 0 \<lparr>base = 0, off = 2, len = 1, cap = 2\<rparr> =
       Inr (\<lparr>base = 0, off = 0, len = 4, cap = 4\<rparr>, [[2, 1, 2, 3]])"
    by (simp add: Insert_repaired_def wrap64_def slice_to_def slice_from_def slice_expr_def
        copy_def store_def overwrite_def contents_def)
  have d: "Insert_repaired (2 ^ 45) 0 [[1, 2, 3 :: int]]
         \<lparr>base = 0, off = 0, len = 3, cap = 3\<rparr> 0 \<lparr>base = 0, off = 2, len = 1, cap = 1\<rparr> =
       Inr (\<lparr>base = 1, off = 0, len = 4, cap = 4\<rparr>, [[1, 2, 3], [3, 1, 2, 3]])"
    by (simp add: Insert_repaired_def wrap64_def make_def slice_to_def slice_from_def
        slice_expr_def copy_def store_def overwrite_def contents_def)
  show ?thesis using a b c d by (intro conjI)
qed

text \<open>
  What the repaired body does on values that are apart from the cells it moves into: it
  returns \<open>s[0:i]\<close>, the values and \<open>s[i:]\<close>, as long as the sum of the lengths is an
  \<^verbatim>\<open>int\<close> and a new array, where one is needed, can be allocated. Values that are written
  out in the call are always apart.
\<close>

lemma Insert_repaired_places_values:
  assumes "valid h s" "valid h vs" "0 \<le> i" "i \<le> int (len s)"
    and "len s + len vs \<le> cap s \<Longrightarrow> base vs = base s \<Longrightarrow>
         cells vs \<inter> {off s + nat i + len vs ..< off s + len s + len vs} = {}"
    and "int (len s) + int (len vs) < 2 ^ 63"
    and "cap s < len s + len vs \<Longrightarrow> len s + len vs \<le> lim"
  shows "\<exists>r h'. Insert_repaired lim z h s i vs = Inr (r, h') \<and> len r = len s + len vs
     \<and> contents h' r =
        take (nat i) (contents h s) @ contents h vs @ drop (nat i) (contents h s)"
proof -
  have k: "nat i \<le> len s" and ik: "int (nat i) = i" using assms(3,4) by simp_all
  have "\<exists>r h'. Insert_repaired lim z h s (int (nat i)) vs = Inr (r, h')
     \<and> valid h' r \<and> len r = len s + len vs
     \<and> contents h' r =
        take (nat i) (contents h s) @ contents h vs @ drop (nat i) (contents h s)
     \<and> length h \<le> length h'
     \<and> (\<forall>p. p < length h \<and> p \<noteq> base s \<longrightarrow> h' ! p = h ! p)
     \<and> (base r = base s \<or> base r = length h)"
    by (rule Insert_result [OF assms(1,2) k assms(5,6,7)])
  then show ?thesis unfolding ik by blast
qed

text \<open>
  With an index outside \<open>[0, len s]\<close> the repaired body panics, in either branch, whatever
  the values are: in a slice expression, or before that in \<^verbatim>\<open>make\<close>.
\<close>

lemma bnd_panics: "(\<And>x. \<exists>e. f x = Inl e) \<Longrightarrow> \<exists>e. bnd m f = Inl e"
  by (cases m) simp_all

lemma Insert_out_of_range:
  assumes r: "i < 0 \<or> int (len s) < i"
    and i64: "- (2 ^ 63) \<le> i" "i < 2 ^ 63"
    and nw: "int (len s) + int (len vs) < 2 ^ 63"
  shows "\<exists>e. Insert_repaired lim z h s i vs = Inl e"
proof -
  let ?n = "int (len s) + int (len vs)"
  let ?w = "wrap64 (i + int (len vs))"
  have w1: "wrap64 ?n = ?n" using nw by (intro wrap64_id) auto
  have high: "?w < 0 \<or> ?n < ?w" if "int (len s) < i"
  proof (cases "i + int (len vs) < 2 ^ 63")
    case True
    then have "?w = i + int (len vs)" using that by (intro wrap64_id) auto
    then show ?thesis using that by simp
  next
    case False
    then have "?w = i + int (len vs) - 2 ^ 64"
      using i64 nw by (intro wrap64_over) auto
    then show ?thesis using i64 nw by simp
  qed
  have last: "\<exists>e. slice_from t ?w = Inl e \<or> slice_from s i = Inl e"
    if "int (len t) = ?n" for t
  proof (cases "i < 0")
    case True
    then have "slice_from s i = Inl SliceBoundsOutOfRange"
      by (intro slice_from_panic) simp
    then show ?thesis by blast
  next
    case False
    then have "int (len s) < i" using r by simp
    from high [OF this] have "slice_from t ?w = Inl SliceBoundsOutOfRange"
      using that by (intro slice_from_panic) auto
    then show ?thesis by blast
  qed
  show ?thesis
  proof (cases "?n \<le> int (cap s)")
    case True
    let ?s2 = "s\<lparr>len := nat ?n\<rparr>"
    have st: "slice_to s ?n = Inr ?s2" using True by (simp add: slice_to_ok)
    have "\<exists>e. bnd (slice_from ?s2 ?w) (\<lambda>d1. bnd (slice_from s i) (\<lambda>src1.
        case copy h d1 src1 of (c1, h1) \<Rightarrow>
        bnd (slice_from ?s2 i) (\<lambda>d2.
        case copy h1 d2 vs of (c2, h2) \<Rightarrow> Inr (?s2, h2)))) = Inl e"
      using last [of ?s2] by (auto simp add: bnd_def split: sum.splits)
    then show ?thesis
      unfolding Insert_repaired_def w1 Let_def using True st by simp
  next
    case False
    have tail: "\<exists>e. bnd (slice_to s i) (\<lambda>src1.
        case copy h0 s2 src1 of (c1, h1) \<Rightarrow>
        bnd (slice_from s2 i) (\<lambda>d2.
        case copy h1 d2 vs of (c2, h2) \<Rightarrow>
        bnd (slice_from s2 ?w) (\<lambda>d3.
        bnd (slice_from s i) (\<lambda>src3.
        case copy h2 d3 src3 of (c3, h3) \<Rightarrow> Inr (s2, h3))))) = Inl e"
      if "int (len s2) = ?n" for s2 and h0 :: "'a heap"
      using last [OF that] by (auto simp add: bnd_def split: sum.splits prod.splits)
    have "\<exists>e. bnd (make lim z h ?n ?n) (\<lambda>(s2, h0). bnd (slice_to s i) (\<lambda>src1.
        case copy h0 s2 src1 of (c1, h1) \<Rightarrow>
        bnd (slice_from s2 i) (\<lambda>d2.
        case copy h1 d2 vs of (c2, h2) \<Rightarrow>
        bnd (slice_from s2 ?w) (\<lambda>d3.
        bnd (slice_from s i) (\<lambda>src3.
        case copy h2 d3 src3 of (c3, h3) \<Rightarrow> Inr (s2, h3)))))) = Inl e"
    proof (cases "make lim z h ?n ?n")
      case (Inl e)
      then show ?thesis by simp
    next
      case (Inr p)
      obtain s2 h0 where p: "p = (s2, h0)" by (cases p)
      have "int (len s2) = ?n"
        using Inr p by (auto simp add: make_def split: if_splits)
      from tail [OF this, of h0] show ?thesis using Inr p by simp
    qed
    then show ?thesis
      unfolding Insert_repaired_def w1 Let_def using False by simp
  qed
qed

section \<open>Clone and the round trip through Insert and Delete\<close>

lemma Clone_result:
  assumes "valid h s" "cap s \<le> lim"
  shows "Clone lim z h s =
    Inr (\<lparr>base = length h, off = 0, len = len s, cap = cap s\<rparr>,
         h @ [contents h s @ replicate (cap s - len s) z])"
proof -
  let ?s2 = "\<lparr>base = length h, off = 0, len = len s, cap = cap s\<rparr>"
  let ?h1 = "h @ [replicate (cap s) z]"
  have c: "len s \<le> cap s" using assms(1) by (simp add: valid_def)
  have lc: "length (contents h s) = len s" using assms(1) by (rule length_contents)
  have mk: "make lim z h (int (len s)) (int (cap s)) = Inr (?s2, ?h1)"
    using c assms(2) make_ok [of "int (len s)" "int (cap s)" lim z h] by simp
  have v1: "valid ?h1 s" using assms(1) by (rule valid_grown_heap)
  have c1: "contents ?h1 s = contents h s" using assms(1) by (rule contents_grown_heap)
  have "len s \<le> len ?s2" by simp
  then have "copy ?h1 ?s2 s = (len s, store ?h1 ?s2 (contents ?h1 s))"
    using v1 by (rule copy_result)
  then have cp: "copy ?h1 ?s2 s = (len s, store ?h1 ?s2 (contents h s))"
    by (simp only: c1)
  have st: "store ?h1 ?s2 (contents h s) = h @ [contents h s @ replicate (cap s - len s) z]"
    using lc by (simp add: store_def overwrite_def)
  show ?thesis using mk cp st by (simp add: Clone_def)
qed

lemma Clone_view:
  assumes "valid h s"
  shows "valid (h @ [contents h s @ replicate (cap s - len s) z])
           \<lparr>base = length h, off = 0, len = len s, cap = cap s\<rparr>"
    and "contents (h @ [contents h s @ replicate (cap s - len s) z])
           \<lparr>base = length h, off = 0, len = len s, cap = cap s\<rparr> = contents h s"
proof -
  have c: "len s \<le> cap s" using assms by (simp add: valid_def)
  have lc: "length (contents h s) = len s" using assms by (rule length_contents)
  show "valid (h @ [contents h s @ replicate (cap s - len s) z])
           \<lparr>base = length h, off = 0, len = len s, cap = cap s\<rparr>"
    using c lc by (simp add: valid_def)
  show "contents (h @ [contents h s @ replicate (cap s - len s) z])
           \<lparr>base = length h, off = 0, len = len s, cap = cap s\<rparr> = contents h s"
    using lc by (simp add: contents_def)
qed

text \<open>
  C3. The claim: for \<open>0 \<le> i \<le> len s\<close>, \<^verbatim>\<open>Delete(Insert(Clone(s), i, x), i, i+1)\<close> shows the
  elements of \<open>s\<close>. The shipped \<^verbatim>\<open>Insert\<close> does not build (see \<open>Insert_repaired\<close>), so the
  expression has no value: the defect is the one of C2. The lemma says what the expression
  returns once the two names are repaired. It then returns normally and shows the elements
  of \<open>s\<close>, and the arrays that existed before are unchanged, provided that \<open>len s + 1\<close> is
  an \<^verbatim>\<open>int\<close> and that the copy of \<open>s\<close> and, where \<open>s\<close> is full, the longer array can be
  allocated.
\<close>

lemma insert_delete_repaired_round_trip:
  assumes "valid h s" "0 \<le> i" "i \<le> int (len s)"
    and cl: "cap s \<le> lim" and nw: "int (len s) + 1 < 2 ^ 63"
    and al: "cap s < len s + 1 \<Longrightarrow> len s + 1 \<le> lim"
  shows "\<exists>r h'. insert_delete_repaired lim z h s i x = Inr (r, h')
     \<and> len r = len s \<and> contents h' r = contents h s
     \<and> (\<forall>p. p < length h \<longrightarrow> h' ! p = h ! p) \<and> contents h' s = contents h s"
proof -
  let ?cs = "contents h s"
  let ?c = "\<lparr>base = length h, off = 0, len = len s, cap = cap s\<rparr>"
  let ?h1 = "h @ [?cs @ replicate (cap s - len s) z]"
  let ?v = "\<lparr>base = length ?h1, off = 0, len = length [x], cap = length [x]\<rparr>"
  let ?h2 = "?h1 @ [[x]]"
  have k: "nat i \<le> len s" and ik: "int (nat i) = i" using assms(2,3) by simp_all
  have lc: "length ?cs = len s" using assms(1) by (rule length_contents)
  have clone: "Clone lim z h s = Inr (?c, ?h1)" using assms(1) cl by (rule Clone_result)
  note cv = Clone_view [OF assms(1), of z]
  note vr = variadic_result [OF cv(1)]
  have va: "variadic ?h1 [x] = (?v, ?h2)" by (rule vr(1))
  have kc: "nat i \<le> len ?c" using k by simp
  have nwc: "int (len ?c) + int (len ?v) < 2 ^ 63" using nw by simp
  have alc: "cap ?c < len ?c + len ?v \<Longrightarrow> len ?c + len ?v \<le> lim" using al by simp
  have "\<exists>r h3. Insert_repaired lim z ?h2 ?c (int (nat i)) ?v = Inr (r, h3)
     \<and> valid h3 r \<and> len r = len ?c + len ?v
     \<and> contents h3 r =
        take (nat i) (contents ?h2 ?c) @ contents ?h2 ?v @ drop (nat i) (contents ?h2 ?c)
     \<and> length ?h2 \<le> length h3
     \<and> (\<forall>p. p < length ?h2 \<and> p \<noteq> base ?c \<longrightarrow> h3 ! p = ?h2 ! p)
     \<and> (base r = base ?c \<or> base r = length ?h2)"
    by (rule Insert_result [OF vr(4) vr(2) kc _ nwc alc]) simp
  then obtain r h3 where ins: "Insert_repaired lim z ?h2 ?c i ?v = Inr (r, h3)"
    and vr3: "valid h3 r" and lr: "len r = len s + 1"
    and cr: "contents h3 r = take (nat i) ?cs @ [x] @ drop (nat i) ?cs"
    and fr3: "\<forall>p. p < length ?h2 \<and> p \<noteq> base ?c \<longrightarrow> h3 ! p = ?h2 ! p"
    and br: "base r = base ?c \<or> base r = length ?h2"
    unfolding ik vr(3) vr(5) cv(2) by auto
  have up: "i + 1 \<le> int (len r)" using assms(3) lr by simp
  have "\<exists>r' h4. Delete h3 r i (i + 1) = Inr (r', h4)
     \<and> int (len r') = int (len r) - (i + 1 - i)
     \<and> contents h4 r' = take (nat i) (contents h3 r) @ drop (nat (i + 1)) (contents h3 r)
     \<and> base r' = base r \<and> off r' = off r \<and> cap r' = cap r \<and> valid h4 r'
     \<and> h4 = h3[base r := overwrite (h3 ! base r) (off r + nat i)
                  (drop (nat (i + 1)) (contents h3 r))]
     \<and> length h4 = length h3"
    using assms(2) up by (intro Delete_in_range [OF vr3]) simp_all
  then obtain r' h4 where del: "Delete h3 r i (i + 1) = Inr (r', h4)"
    and lr': "int (len r') = int (len r) - (i + 1 - i)"
    and cr': "contents h4 r' = take (nat i) (contents h3 r) @ drop (nat (i + 1)) (contents h3 r)"
    and h4: "h4 = h3[base r := overwrite (h3 ! base r) (off r + nat i)
                  (drop (nat (i + 1)) (contents h3 r))]"
    by blast
  have res: "insert_delete_repaired lim z h s i x = Inr (r', h4)"
    using clone va ins del by (simp add: insert_delete_repaired_def)
  have len': "len r' = len s" using lr' lr by simp
  have n1: "nat (i + 1) = nat i + 1" using assms(2) by simp
  have cont: "contents h4 r' = ?cs"
    unfolding cr' cr n1 using k lc by simp
  have frame: "h4 ! p = h ! p" if p: "p < length h" for p
  proof -
    have "p \<noteq> base r" using br p by auto
    then have "h4 ! p = h3 ! p" unfolding h4 by simp
    also have "h3 ! p = ?h2 ! p" using fr3 p by simp
    also have "?h2 ! p = h ! p" using p by (simp add: nth_append)
    finally show ?thesis .
  qed
  have "base s < length h" using assms(1) by (simp add: valid_def)
  then have orig: "contents h4 s = ?cs" using frame by (simp add: contents_def)
  show ?thesis using res len' cont frame orig by simp
qed

section \<open>Grow\<close>

lemma Grow_make_panics:
  "n < 0 \<or> int lim < n \<Longrightarrow> Grow lim g z h s n = Inl MakeLenOutOfRange"
  by (auto simp add: Grow_def slice_to_def slice_expr_def make_def)

lemma Grow_growslice_panics:
  assumes "0 < n" "n \<le> int lim"
    and "2 ^ 63 \<le> int (cap s) + n \<or> lim < max (cap s + nat n) (g (cap s) (cap s + nat n))"
  shows "Grow lim g z h s n = Inl GrowsliceLenOutOfRange"
proof -
  let ?t = "s\<lparr>len := cap s\<rparr>"
  let ?m = "\<lparr>base = length h, off = 0, len = nat n, cap = nat n\<rparr>"
  let ?h1 = "h @ [replicate (nat n) z]"
  have e1: "slice_to s (int (cap s)) = Inr ?t" by (simp add: slice_to_ok)
  have mk: "make lim z h n n = Inr (?m, ?h1)" using assms(1,2) by (simp add: make_ok)
  have big: "2 ^ 63 \<le> int (cap s + nat n) \<or>
      lim < max (cap s + nat n) (g (cap s) (cap s + nat n))"
    using assms(1,3) by auto
  have "append_slice lim g z ?h1 ?t ?m = Inl GrowsliceLenOutOfRange"
    using assms(1) big by (simp add: append_slice_def Let_def)
  then show ?thesis using e1 mk by (simp add: Grow_def)
qed

lemma Grow_result:
  assumes "valid h s" "0 \<le> n" "n \<le> int lim"
    and fit: "0 < n \<Longrightarrow> int (cap s) + n < 2 ^ 63 \<and>
         max (cap s + nat n) (g (cap s) (cap s + nat n)) \<le> lim"
  shows "\<exists>r h'. Grow lim g z h s n = Inr (r, h') \<and> valid h' r \<and> len r = len s
     \<and> contents h' r = contents h s \<and> len s + nat n \<le> cap r
     \<and> (\<forall>p. p < length h \<longrightarrow> h' ! p = h ! p)"
proof -
  let ?t = "s\<lparr>len := cap s\<rparr>"
  let ?m = "\<lparr>base = length h, off = 0, len = nat n, cap = nat n\<rparr>"
  let ?h1 = "h @ [replicate (nat n) z]"
  have b: "base s < length h" and c: "len s \<le> cap s"
    using assms(1) by (simp_all add: valid_def)
  have e1: "slice_to s (int (cap s)) = Inr ?t" by (simp add: slice_to_ok)
  have mk: "make lim z h n n = Inr (?m, ?h1)" using assms(2,3) by (simp add: make_ok)
  have vt: "valid h ?t" using assms(1) by (simp add: valid_def)
  have vt1: "valid ?h1 ?t" using vt by (rule valid_grown_heap)
  have ct1: "contents ?h1 ?t = contents h ?t" using vt by (rule contents_grown_heap)
  have cs: "take (len s) (contents h ?t) = contents h s"
    using contents_shorter [of "len s" ?t h] c by simp
  have lt: "length (contents h ?t) = cap s" using length_contents [OF vt] by simp
  have cm: "contents ?h1 ?m = replicate (nat n) z" by (simp add: contents_def)
  show ?thesis
  proof (cases "n = 0")
    case True
    have ap: "append_slice lim g z ?h1 ?t ?m = Inr (?t, ?h1)"
      using True by (simp add: append_slice_def Let_def contents_def)
    have e2: "slice_to ?t (int (len s)) = Inr s"
      using c slice_to_ok [of "int (len s)" ?t] by simp
    have res: "Grow lim g z h s n = Inr (s, ?h1)"
      using e1 mk ap e2 by (simp add: Grow_def)
    have "valid ?h1 s" using assms(1) by (rule valid_grown_heap)
    moreover have "contents ?h1 s = contents h s" using assms(1) by (rule contents_grown_heap)
    ultimately show ?thesis using res True c by (simp add: nth_append)
  next
    case False
    let ?need = "cap s + nat n"
    let ?c = "max ?need (g (cap s) ?need)"
    let ?a = "contents h ?t @ replicate (nat n) z @ replicate (?c - ?need) z"
    let ?r = "\<lparr>base = length ?h1, off = 0, len = ?need, cap = ?c\<rparr>"
    let ?h2 = "?h1 @ [?a]"
    have pos: "0 < n" "0 < nat n" using False assms(2) by simp_all
    have small: "\<not> (2 ^ 63 \<le> int ?need \<or> lim < ?c)"
      using fit [OF pos(1)] pos(1) by auto
    have ap: "append_slice lim g z ?h1 ?t ?m = Inr (?r, ?h2)"
      using pos(2) small by (simp add: append_slice_def Let_def ct1 cm)
    have ls: "int (len s) \<le> int (cap ?r)" using c by simp
    have e2: "slice_to ?r (int (len s)) = Inr (?r\<lparr>len := len s\<rparr>)"
      using ls slice_to_ok [of "int (len s)" ?r] by simp
    have res: "Grow lim g z h s n = Inr (?r\<lparr>len := len s\<rparr>, ?h2)"
      using e1 mk ap e2 by (simp add: Grow_def)
    have v: "valid ?h2 (?r\<lparr>len := len s\<rparr>)"
      using lt c by (simp add: valid_def nth_append)
    have nth: "?h2 ! length ?h1 = ?a" by (simp add: nth_append)
    have "contents ?h2 (?r\<lparr>len := len s\<rparr>) = take (len s) (?h2 ! length ?h1)"
      unfolding contents_def [of ?h2] by simp
    also have "\<dots> = take (len s) ?a" by (simp only: nth)
    also have "\<dots> = take (len s) (contents h ?t)" using lt c by simp
    finally have ce: "contents ?h2 (?r\<lparr>len := len s\<rparr>) = contents h s" using cs by simp
    have fr: "\<forall>p. p < length h \<longrightarrow> ?h2 ! p = h ! p" by (simp add: nth_append)
    have cp: "len s + nat n \<le> cap (?r\<lparr>len := len s\<rparr>)" using c by simp
    show ?thesis using res v ce fr cp by simp
  qed
qed

text \<open>Appending within the capacity writes into the array of the view and allocates nothing.\<close>

lemma append_slice_in_place:
  "len r + len v \<le> cap r \<Longrightarrow>
   \<exists>r2 h3. append_slice lim g z h r v = Inr (r2, h3) \<and> length h3 = length h \<and> base r2 = base r"
  by (simp add: append_slice_def Let_def)

text \<open>
  C7. The claim as it is stated fails for an \<open>n \<ge> 0\<close> that is too large to allocate: the
  run-time system refuses \<^verbatim>\<open>make([]T, n, n)\<close>, as the comment of \<^verbatim>\<open>Grow\<close> says it will. For
  8-byte elements on a 64-bit platform one allocation holds at most \<open>2 ^ 45\<close> elements, and
  \<^verbatim>\<open>Grow(s, 1<<62)\<close> panics with \<^verbatim>\<open>makeslice: len out of range\<close>.
\<close>

theorem Grow_too_large_counterexample:
  "valid [[1, 2, 3 :: int]] \<lparr>base = 0, off = 0, len = 3, cap = 3\<rparr>
   \<and> (0 :: int) \<le> 2 ^ 62
   \<and> Grow (2 ^ 45) max 0 [[1, 2, 3 :: int]] \<lparr>base = 0, off = 0, len = 3, cap = 3\<rparr> (2 ^ 62) =
       Inl MakeLenOutOfRange"
proof -
  have "int (2 ^ 45) < 2 ^ 62" by simp
  then have "Grow (2 ^ 45) max 0 [[1, 2, 3 :: int]] \<lparr>base = 0, off = 0, len = 3, cap = 3\<rparr>
      (2 ^ 62) = Inl MakeLenOutOfRange"
    by (intro Grow_make_panics) simp
  then show ?thesis by (simp add: valid_def)
qed

text \<open>
  C7, amended. Let \<open>n \<ge> 0\<close> be small enough to allocate: at most \<open>lim\<close>, the number of
  elements one allocation holds, and for \<open>n > 0\<close> with \<open>cap s + n\<close> still an \<^verbatim>\<open>int\<close> and the
  capacity that \<^verbatim>\<open>append\<close> chooses for the new array at most \<open>lim\<close> too. Then \<^verbatim>\<open>Grow(s, n)\<close>
  returns a slice of the same length that shows the same elements, with capacity at least
  \<open>len s + n\<close>, and leaves the arrays that existed unchanged; appending up to \<open>n\<close> elements
  to the result then allocates no new array. \<^verbatim>\<open>Grow\<close> panics when \<open>n\<close> is negative or too
  large to allocate: in \<^verbatim>\<open>make\<close> for \<open>n < 0\<close> or \<open>n > lim\<close>, and in \<^verbatim>\<open>append\<close> when the new
  array is too large.
\<close>

theorem Grow_capacity:
  assumes "valid h s"
  shows "(0 \<le> n \<and> n \<le> int lim
          \<and> (0 < n \<longrightarrow> int (cap s) + n < 2 ^ 63
                \<and> max (cap s + nat n) (g (cap s) (cap s + nat n)) \<le> lim)
        \<longrightarrow> (\<exists>r h'. Grow lim g z h s n = Inr (r, h') \<and> valid h' r \<and> len r = len s
             \<and> contents h' r = contents h s \<and> int (len s) + n \<le> int (cap r)
             \<and> (\<forall>p. p < length h \<longrightarrow> h' ! p = h ! p)
             \<and> (\<forall>h2 v. int (len v) \<le> n \<longrightarrow>
                  (\<exists>r2 h3. append_slice lim g z (h2 :: 'a heap) r v = Inr (r2, h3)
                     \<and> length h3 = length h2 \<and> base r2 = base r))))
     \<and> (n < 0 \<or> int lim < n \<longrightarrow> Grow lim g z h s n = Inl MakeLenOutOfRange)
     \<and> (0 < n \<and> n \<le> int lim
          \<and> (2 ^ 63 \<le> int (cap s) + n
              \<or> lim < max (cap s + nat n) (g (cap s) (cap s + nat n)))
        \<longrightarrow> Grow lim g z h s n = Inl GrowsliceLenOutOfRange)"
proof (intro conjI impI)
  assume a: "0 \<le> n \<and> n \<le> int lim
          \<and> (0 < n \<longrightarrow> int (cap s) + n < 2 ^ 63
                \<and> max (cap s + nat n) (g (cap s) (cap s + nat n)) \<le> lim)"
  then have n: "0 \<le> n" and nl: "n \<le> int lim"
    and fit: "0 < n \<Longrightarrow> int (cap s) + n < 2 ^ 63 \<and>
         max (cap s + nat n) (g (cap s) (cap s + nat n)) \<le> lim"
    by simp_all
  have "\<exists>r h'. Grow lim g z h s n = Inr (r, h') \<and> valid h' r \<and> len r = len s
     \<and> contents h' r = contents h s \<and> len s + nat n \<le> cap r
     \<and> (\<forall>p. p < length h \<longrightarrow> h' ! p = h ! p)"
    using assms n nl by (rule Grow_result) (rule fit)
  then obtain r h' where res: "Grow lim g z h s n = Inr (r, h')" and v: "valid h' r"
    and l: "len r = len s" and c: "contents h' r = contents h s"
    and cp: "len s + nat n \<le> cap r" and fr: "\<forall>p. p < length h \<longrightarrow> h' ! p = h ! p"
    by blast
  have cpi: "int (len s) + n \<le> int (cap r)" using cp n by simp
  have room: "\<exists>r2 h3. append_slice lim g z h2 r v = Inr (r2, h3)
      \<and> length h3 = length h2 \<and> base r2 = base r"
    if "int (len v) \<le> n" for h2 :: "'a heap" and v
    using that l cp by (intro append_slice_in_place) simp
  show "\<exists>r h'. Grow lim g z h s n = Inr (r, h') \<and> valid h' r \<and> len r = len s
     \<and> contents h' r = contents h s \<and> int (len s) + n \<le> int (cap r)
     \<and> (\<forall>p. p < length h \<longrightarrow> h' ! p = h ! p)
     \<and> (\<forall>h2 v. int (len v) \<le> n \<longrightarrow>
          (\<exists>r2 h3. append_slice lim g z (h2 :: 'a heap) r v = Inr (r2, h3)
             \<and> length h3 = length h2 \<and> base r2 = base r))"
    using res v l c cpi fr room by blast
next
  assume "n < 0 \<or> int lim < n"
  then show "Grow lim g z h s n = Inl MakeLenOutOfRange" by (rule Grow_make_panics)
next
  assume "0 < n \<and> n \<le> int lim
          \<and> (2 ^ 63 \<le> int (cap s) + n
              \<or> lim < max (cap s + nat n) (g (cap s) (cap s + nat n)))"
  then have "0 < n" "n \<le> int lim"
    "2 ^ 63 \<le> int (cap s) + n \<or> lim < max (cap s + nat n) (g (cap s) (cap s + nat n))"
    by simp_all
  then show "Grow lim g z h s n = Inl GrowsliceLenOutOfRange" by (rule Grow_growslice_panics)
qed

theorem Grow_capacity_witness:
  "valid [[1, 2, 3, 7 :: int]] \<lparr>base = 0, off = 0, len = 3, cap = 4\<rparr> \<and>
   contents [[1, 2, 3, 7 :: int]] \<lparr>base = 0, off = 0, len = 3, cap = 4\<rparr> = [1, 2, 3] \<and>
   (2 :: int) \<le> int (2 ^ 45) \<and>
   int (cap \<lparr>base = 0, off = 0, len = 3, cap = 4\<rparr>) + 2 < 2 ^ 63 \<and>
   max (4 + nat 2) (max 4 (4 + nat 2)) \<le> (2 ^ 45 :: nat) \<and>
   (\<exists>r h'. Grow (2 ^ 45) max 0 [[1, 2, 3, 7 :: int]]
          \<lparr>base = 0, off = 0, len = 3, cap = 4\<rparr> 2 = Inr (r, h')
        \<and> len r = 3 \<and> contents h' r = [1, 2, 3] \<and> 5 \<le> cap r) \<and>
   Grow (2 ^ 45) max 0 [[1, 2, 3, 7 :: int]]
     \<lparr>base = 0, off = 0, len = 3, cap = 4\<rparr> (- 1) = Inl MakeLenOutOfRange \<and>
   Grow (2 ^ 45) max 0 [[1, 2, 3, 7 :: int]]
     \<lparr>base = 0, off = 0, len = 3, cap = 4\<rparr> (2 ^ 62) = Inl MakeLenOutOfRange"
proof -
  let ?h = "[[1, 2, 3, 7 :: int]]" and ?s = "\<lparr>base = 0, off = 0, len = 3, cap = 4\<rparr>"
  have v: "valid ?h ?s" by (simp add: valid_def)
  have c: "contents ?h ?s = [1, 2, 3]" by (simp add: contents_def)
  have p1: "(2 :: int) \<le> int (2 ^ 45)" by simp
  have p2: "int (cap ?s) + 2 < 2 ^ 63" by simp
  have p3: "max (4 + nat 2) (max 4 (4 + nat 2)) \<le> (2 ^ 45 :: nat)" by simp
  have p3': "max (cap ?s + nat 2) (max (cap ?s) (cap ?s + nat 2)) \<le> (2 ^ 45 :: nat)"
    using p3 by simp
  from Grow_capacity [OF v, where n = 2 and lim = "2 ^ 45" and g = max and z = 0] p1 p2 p3'
  have "\<exists>r h'. Grow (2 ^ 45) max 0 ?h ?s 2 = Inr (r, h') \<and> len r = len ?s
      \<and> contents h' r = contents ?h ?s \<and> int (len ?s) + 2 \<le> int (cap r)"
    by auto
  then have a: "\<exists>r h'. Grow (2 ^ 45) max 0 ?h ?s 2 = Inr (r, h') \<and> len r = 3
      \<and> contents h' r = [1, 2, 3] \<and> 5 \<le> cap r"
    unfolding c by auto
  from Grow_capacity [OF v, where n = "- 1" and lim = "2 ^ 45" and g = max and z = 0]
  have b: "Grow (2 ^ 45) max 0 ?h ?s (- 1) = Inl MakeLenOutOfRange" by simp
  have "int (2 ^ 45) < 2 ^ 62" by simp
  with Grow_capacity [OF v, where n = "2 ^ 62" and lim = "2 ^ 45" and g = max and z = 0]
  have d: "Grow (2 ^ 45) max 0 ?h ?s (2 ^ 62) = Inl MakeLenOutOfRange" by simp
  show ?thesis using v c p1 p2 p3 a b d by (intro conjI)
qed

end
